theory Spec2Isabelle
  imports Complex_Main
begin

section \<open>Strings and integers of the Go runtime\<close>

text \<open>
  A Go string is a sequence of bytes and \<open>len\<close> counts bytes: it is a \<open>string\<close> here.
  Go's \<open>int\<close> is \<open>int\<close>: every integer the program computes is a sum of lengths of strings
  held in memory, or a product bounded by such a length plus the maximum, far from the 64-bit
  limits. A result of type \<open>option\<close> is \<open>None\<close> where the Go code does not return (a slice
  index out of range, a loop that never ends); a \<open>nil\<close> slice is the empty list, which Go
  cannot tell from it by \<open>len\<close> or \<open>range\<close>.
\<close>

text \<open>The slice expression \<open>s[lo:hi]\<close>, which panics outside \<open>0 \<le> lo \<le> hi \<le> len(s)\<close>.\<close>

definition slice :: "string \<Rightarrow> int \<Rightarrow> int \<Rightarrow> string option" where
  "slice s lo hi =
     (if 0 \<le> lo \<and> lo \<le> hi \<and> hi \<le> int (length s)
      then Some (take (nat (hi - lo)) (drop (nat lo) s))
      else None)"

text \<open>The function \<open>min\<close> of mdsplit.go.\<close>

definition minInt :: "int \<Rightarrow> int \<Rightarrow> int" where
  "minInt a b = (if a < b then a else b)"

section \<open>SimpleSplit\<close>

text \<open>
  \<open>int(math.Ceil(float64(len(text)) / float64(maxSize)))\<close>: the quotient is taken in the
  reals, which is what the float64 division and \<open>math.Ceil\<close> compute for operands below
  \<open>2^53\<close>, that is, for every text that fits in memory.
\<close>

definition numChunksOf :: "int \<Rightarrow> int \<Rightarrow> int" where
  "numChunksOf len maxSize = \<lceil>real_of_int len / real_of_int maxSize\<rceil>"

text \<open>The loop \<open>for i := 0; i < numChunks; i++\<close> of SimpleSplit.\<close>

function SimpleSplit_loop ::
  "string \<Rightarrow> string \<Rightarrow> int \<Rightarrow> int \<Rightarrow> int \<Rightarrow> string list \<Rightarrow> string list option" where
  "SimpleSplit_loop text sep maxSize numChunks i chunks =
     (if i < numChunks then
        (let upTo = minInt (int (length text)) ((i + 1) * maxSize) in
         case slice text (i * maxSize) upTo of
           None \<Rightarrow> None
         | Some portion \<Rightarrow>
             SimpleSplit_loop text sep maxSize numChunks (i + 1)
               (chunks @ [if i < numChunks - 1 then portion @ sep else portion]))
      else Some chunks)"
  by pat_completeness auto
termination
  by (relation "measure (\<lambda>(text, sep, maxSize, numChunks, i, chunks). nat (numChunks - i))") auto

declare SimpleSplit_loop.simps [simp del]

definition SimpleSplit :: "string \<Rightarrow> int \<Rightarrow> string \<Rightarrow> string list option" where
  "SimpleSplit text maxLen sep =
     (if int (length text) \<le> maxLen then Some [text]
      else if maxLen \<le> int (length sep) then Some []
      else
        (let maxSize = maxLen - int (length sep);
             numChunks = numChunksOf (int (length text)) maxSize
         in SimpleSplit_loop text sep maxSize numChunks 0 []))"

section \<open>Library functions of package strings, strconv and fmt\<close>

text \<open>\<open>strings.HasPrefix\<close>.\<close>

definition HasPrefix :: "string \<Rightarrow> string \<Rightarrow> bool" where
  "HasPrefix s p = (take (length p) s = p)"

text \<open>\<open>strings.Index\<close>: the index of the first occurrence of \<open>sub\<close>, or \<open>-1\<close>.\<close>

fun Index :: "string \<Rightarrow> string \<Rightarrow> int" where
  "Index [] sub = (if sub = [] then 0 else - 1)"
| "Index (c # s) sub =
     (if HasPrefix (c # s) sub then 0
      else (let r = Index s sub in if r < 0 then - 1 else r + 1))"

text \<open>
  \<open>strings.Replace(s, old, new, 1)\<close>: the first occurrence of \<open>old\<close> is replaced;
  an empty \<open>old\<close> matches at the start of the string.
\<close>

fun Replace1 :: "string \<Rightarrow> string \<Rightarrow> string \<Rightarrow> string" where
  "Replace1 [] old new = (if old = [] then new else [])"
| "Replace1 (c # s) old new =
     (if HasPrefix (c # s) old then new @ drop (length old) (c # s)
      else c # Replace1 s old new)"

text \<open>\<open>strings.Contains\<close>: the substring occurs somewhere in the string.\<close>

fun Contains :: "string \<Rightarrow> string \<Rightarrow> bool" where
  "Contains [] sub = (sub = [])"
| "Contains (c # s) sub = (HasPrefix (c # s) sub \<or> Contains s sub)"

text \<open>
  Package unicode/utf8. A rune is an \<open>int\<close>; \<open>byteOf\<close> is the value of a byte.
  \<open>runeSize\<close> and \<open>acceptRange\<close> are the tables \<open>first\<close> and \<open>acceptRanges\<close> of the package:
  the length of the sequence that a first byte begins (1 for a byte that begins none) and
  the range of the second byte.
\<close>

definition byteOf :: "char \<Rightarrow> int" where
  "byteOf c = of_char c"

definition RuneSelf :: int where
  "RuneSelf = 0x80"

definition RuneError :: int where
  "RuneError = 0xFFFD"

definition runeSize :: "int \<Rightarrow> nat" where
  "runeSize s0 =
     (if 0xC2 \<le> s0 \<and> s0 \<le> 0xDF then 2
      else if 0xE0 \<le> s0 \<and> s0 \<le> 0xEF then 3
      else if 0xF0 \<le> s0 \<and> s0 \<le> 0xF4 then 4
      else 1)"

definition acceptRange :: "int \<Rightarrow> int \<times> int" where
  "acceptRange s0 =
     (if s0 = 0xE0 then (0xA0, 0xBF)
      else if s0 = 0xED then (0x80, 0x9F)
      else if s0 = 0xF0 then (0x90, 0xBF)
      else if s0 = 0xF4 then (0x80, 0x8F)
      else (0x80, 0xBF))"

text \<open>\<open>utf8.DecodeRuneInString\<close>: the first rune of the string and its width in bytes.\<close>

definition DecodeRuneInString :: "string \<Rightarrow> int \<times> nat" where
  "DecodeRuneInString s =
     (case map byteOf s of
        [] \<Rightarrow> (RuneError, 0)
      | s0 # bs \<Rightarrow>
          if s0 < RuneSelf then (s0, 1)
          else if runeSize s0 = 1 then (RuneError, 1)
          else if length s < runeSize s0 then (RuneError, 1)
          else
            (let s1 = bs ! 0 in
             if s1 < fst (acceptRange s0) \<or> snd (acceptRange s0) < s1 then (RuneError, 1)
             else if runeSize s0 \<le> 2 then ((s0 mod 32) * 64 + s1 mod 64, 2)
             else
               (let s2 = bs ! 1 in
                if s2 < 0x80 \<or> 0xBF < s2 then (RuneError, 1)
                else if runeSize s0 \<le> 3
                  then ((s0 mod 16) * 4096 + (s1 mod 64) * 64 + s2 mod 64, 3)
                else
                  (let s3 = bs ! 2 in
                   if s3 < 0x80 \<or> 0xBF < s3 then (RuneError, 1)
                   else ((s0 mod 8) * 262144 + (s1 mod 64) * 4096 + (s2 mod 64) * 64
                           + s3 mod 64, 4)))))"

text \<open>\<open>utf8.ValidRune\<close>, and \<open>string(r)\<close>, the UTF-8 encoding of a rune.\<close>

definition ValidRune :: "int \<Rightarrow> bool" where
  "ValidRune r = ((0 \<le> r \<and> r < 0xD800) \<or> (0xDFFF < r \<and> r \<le> 0x10FFFF))"

definition EncodeRune :: "int \<Rightarrow> string" where
  "EncodeRune r =
     (if \<not> ValidRune r then [char_of (0xEF::int), char_of (0xBF::int), char_of (0xBD::int)]
      else if r \<le> 0x7F then [char_of r]
      else if r \<le> 0x7FF then [char_of (0xC0 + r div 64), char_of (0x80 + r mod 64)]
      else if r \<le> 0xFFFF then
        [char_of (0xE0 + r div 4096), char_of (0x80 + (r div 64) mod 64),
         char_of (0x80 + r mod 64)]
      else
        [char_of (0xF0 + r div 262144), char_of (0x80 + (r div 4096) mod 64),
         char_of (0x80 + (r div 64) mod 64), char_of (0x80 + r mod 64)])"

text \<open>
  The loop \<open>for i, r := range s\<close> of \<open>strings.IndexRune\<close> that looks for \<open>utf8.RuneError\<close>:
  it decodes one rune after the other.
\<close>

function rangeHasRuneError :: "string \<Rightarrow> bool" where
  "rangeHasRuneError s =
     (if s = [] then False
      else (case DecodeRuneInString s of
              (r, n) \<Rightarrow> r = RuneError \<or> rangeHasRuneError (drop n s)))"
  by pat_completeness auto
termination
  apply (relation "measure length")
   apply simp
  subgoal for s
    by (cases s) (auto simp: DecodeRuneInString_def Let_def split: if_splits)
  done

text \<open>\<open>strings.ContainsRune(s, r)\<close>, that is \<open>strings.IndexRune(s, r) >= 0\<close>.\<close>

definition ContainsRune :: "string \<Rightarrow> int \<Rightarrow> bool" where
  "ContainsRune s r =
     (if 0 \<le> r \<and> r < RuneSelf then char_of r \<in> set s
      else if r = RuneError then rangeHasRuneError s
      else if \<not> ValidRune r then False
      else Contains s (EncodeRune r))"

text \<open>The loop of \<open>trimLeftUnicode\<close> of package strings.\<close>

function trimLeftUnicode :: "string \<Rightarrow> string \<Rightarrow> string" where
  "trimLeftUnicode s cutset =
     (if s = [] then s
      else (case (if byteOf (hd s) \<ge> RuneSelf then DecodeRuneInString s
                  else (byteOf (hd s), 1)) of
              (r, n) \<Rightarrow> if \<not> ContainsRune cutset r then s
                        else trimLeftUnicode (drop n s) cutset))"
  by pat_completeness auto
termination
  apply (relation "measure (\<lambda>(s, cutset). length s)")
   apply simp
  subgoal for s
    by (cases s) (auto simp: DecodeRuneInString_def Let_def split: if_splits)
  done

text \<open>
  \<open>strings.TrimLeft\<close>: it takes a \<^emph>\<open>set\<close> of characters to cut, not a prefix. For a cutset
  of ASCII bytes Go cuts the leading bytes of the set (\<open>trimLeftByte\<close>, \<open>trimLeftASCII\<close>),
  otherwise the leading runes of the set.
\<close>

definition TrimLeft :: "string \<Rightarrow> string \<Rightarrow> string" where
  "TrimLeft s cutset =
     (if s = [] \<or> cutset = [] then s
      else if list_all (\<lambda>c. byteOf c < RuneSelf) cutset
        then dropWhile (\<lambda>c. c \<in> set cutset) s
      else trimLeftUnicode s cutset)"

text \<open>
  \<open>trimRightByte\<close> of package strings, which is \<open>strings.TrimRight(s, cutset)\<close> for a cutset
  of one ASCII byte; MarkdownSplit calls it with the line break.
\<close>

definition trimRightByte :: "string \<Rightarrow> char \<Rightarrow> string" where
  "trimRightByte s c = rev (dropWhile (\<lambda>x. x = c) (rev s))"

text \<open>\<open>strconv.Itoa\<close> and the verb \<open>%d\<close>: decimal digits, most significant first.\<close>

definition digitChar :: "nat \<Rightarrow> char" where
  "digitChar d = ''0123456789'' ! d"

fun digitsOf :: "nat \<Rightarrow> string" where
  "digitsOf n = (if n < 10 then [digitChar n] else digitsOf (n div 10) @ [digitChar (n mod 10)])"

declare digitsOf.simps [simp del]

definition Itoa :: "int \<Rightarrow> string" where
  "Itoa n = (if n < 0 then CHR ''-'' # digitsOf (nat (- n)) else digitsOf (nat n))"

text \<open>
  The format \<open>titleSuffixFmt\<close> of MarkdownSplit, and \<open>fmt.Sprintf(titleSuffixFmt, curChunk,
  titleTotalID)\<close>.
\<close>

definition titleSuffixFmt :: string where
  "titleSuffixFmt = '' (%d/%s)\<newline>\<newline>''"

definition Sprintf_titleSuffix :: "int \<Rightarrow> string \<Rightarrow> string" where
  "Sprintf_titleSuffix curChunk titleTotalID =
     '' ('' @ Itoa curChunk @ ''/'' @ titleTotalID @ '')\<newline>\<newline>''"

section \<open>The parsed document\<close>

text \<open>
  Modelled from the spec: the node tree of the markdown parser, an external library. A node
  has a type, an optional literal (\<open>None\<close> is Go's \<open>nil\<close>), the heading level, the link data
  and its children in document order. The parent reference of a node is the list of its
  ancestors, closest first, which the traversal hands to the visitor. The level is a
  natural number: the parser gives 1 to 6 for a heading, and \<open>strings.Repeat\<close> is never
  called with a negative count.
\<close>

datatype NodeType =
    Document | BlockQuote | List | Item | Paragraph | Heading | HorizontalRule
  | Emph | Strong | Del | Link | Image | Text | HTMLBlock | CodeBlock | Softbreak
  | Hardbreak | Code | HTMLSpan | Table | TableCell | TableHead | TableBody | TableRow

datatype Node =
  Node (nodeType: NodeType) (literal: "string option") (level: nat)
       (destination: string) (title: string) (children: "Node list")

text \<open>
  The answers of the visitor of MarkdownSplit to the library: go on, or end the walk.
\<close>

datatype WalkStatus = GoToNext | Terminate

text \<open>
  Modelled from the spec: the order in which \<open>Walk\<close> of the parser library hands the nodes
  to the visitor: pre-order, children in document order, every node once, each with its
  ancestors. (The library calls the visitor a second time when it leaves a container node;
  the parser puts literals on leaf nodes only, so that call changes nothing.)
\<close>

fun walkOrder :: "Node list \<Rightarrow> Node \<Rightarrow> (Node list \<times> Node) list" where
  "walkOrder anc (Node t l lv d ti cs) =
     (anc, Node t l lv d ti cs) # concat (map (walkOrder (Node t l lv d ti cs # anc)) cs)"

section \<open>MarkdownSplit\<close>

record wrapper =
  beginStr :: string
  endStr :: string

record chunk =
  content :: string
  wrappers :: "wrapper list"

text \<open>The variables of MarkdownSplit that the visitor closure reads and writes.\<close>

record walkState =
  chunks :: "chunk list"
  baseTitle :: string
  titleLen :: int
  canSplit :: bool
  htmlWrappers :: "wrapper list"

definition initState :: walkState where
  "initState = \<lparr>chunks = [], baseTitle = [], titleLen = 0, canSplit = True, htmlWrappers = []\<rparr>"

definition isHTMLOpeningTag :: "string \<Rightarrow> bool" where
  "isHTMLOpeningTag tag = (if HasPrefix tag ''</'' then False else True)"

definition getHTMLClosingTag :: "string \<Rightarrow> string" where
  "getHTMLClosingTag openTag = Replace1 openTag ''<'' ''</''"

text \<open>
  The loop of buildChunks. It is called with any \<open>chunkLen\<close>: with \<open>chunkLen = 0\<close> the Go loop
  never ends and with a negative one the slice expression panics, so the result is an option.
\<close>

partial_function (option) buildChunks_loop ::
  "string \<Rightarrow> int \<Rightarrow> wrapper list \<Rightarrow> chunk list \<Rightarrow> chunk list option" where
  "buildChunks_loop contents chunkLen ws result =
     (if contents \<noteq> [] then
        (if int (length contents) \<le> chunkLen then
           buildChunks_loop [] chunkLen ws (result @ [\<lparr>content = contents, wrappers = ws\<rparr>])
         else
           Option.bind (slice contents 0 chunkLen) (\<lambda>c.
           Option.bind (slice contents chunkLen (int (length contents))) (\<lambda>rest.
             buildChunks_loop rest chunkLen ws (result @ [\<lparr>content = c, wrappers = ws\<rparr>]))))
      else Some result)"

declare buildChunks_loop.simps [code]

definition buildChunks :: "string \<Rightarrow> int \<Rightarrow> wrapper list \<Rightarrow> chunk list option" where
  "buildChunks contents chunkLen ws = buildChunks_loop contents chunkLen ws []"

text \<open>
  The loop \<open>for parent != nil\<close> of the visitor, over the ancestors of the node. \<open>Inl\<close> is the
  early return of the first heading, which becomes the base title; \<open>Inr\<close> the wrappers.
\<close>

fun parentLoop :: "walkState \<Rightarrow> string \<Rightarrow> Node list \<Rightarrow> wrapper list \<Rightarrow> walkState + wrapper list" where
  "parentLoop st contents [] ws = Inr ws"
| "parentLoop st contents (parent # up) ws =
     (case nodeType parent of
        Del \<Rightarrow> parentLoop st contents up (ws @ [\<lparr>beginStr = ''~~'', endStr = ''~~''\<rparr>])
      | Emph \<Rightarrow> parentLoop st contents up (ws @ [\<lparr>beginStr = ''_'', endStr = ''_''\<rparr>])
      | Strong \<Rightarrow> parentLoop st contents up (ws @ [\<lparr>beginStr = ''**'', endStr = ''**''\<rparr>])
      | Heading \<Rightarrow>
          (let heading = replicate (level parent) CHR ''#'' in
           if baseTitle st = [] \<and> length (chunks st) = 0 then
             (let bt = heading @ '' '' @ contents in
              Inl (st\<lparr>baseTitle := bt,
                       titleLen := int (length bt) + int (length titleSuffixFmt) + 10\<rparr>))
           else
             parentLoop st contents up
               (ws @ [\<lparr>beginStr = heading @ '' '', endStr = ''\<newline>\<newline>''\<rparr>]))
      | Link \<Rightarrow>
          (let linkDest = destination parent; linkTitle = title parent;
               sb = ''](''
                    @ (if linkDest \<noteq> [] then linkDest else [])
                    @ (if linkTitle \<noteq> [] then '' '' @ [CHR 0x22] @ linkTitle @ [CHR 0x22] else [])
                    @ '')''
           in parentLoop st contents up (ws @ [\<lparr>beginStr = ''['', endStr = sb\<rparr>]))
      | _ \<Rightarrow> parentLoop st contents up ws)"

text \<open>
  The \<open>switch node.Type\<close> of the visitor: the contents, the wrappers and the stack of open
  HTML tags after it. \<open>contents[:lineBreakIdx+1]\<close> is in range, as the index is that of a
  byte of \<open>contents\<close>.
\<close>

definition nodeSwitch ::
  "Node \<Rightarrow> string \<Rightarrow> wrapper list \<Rightarrow> wrapper list \<Rightarrow> string \<times> wrapper list \<times> wrapper list" where
  "nodeSwitch node contents ws html =
     (case nodeType node of
        Code \<Rightarrow>
          (let lineBreakIdx = Index contents ''\<newline>'';
               prefix = take (nat (lineBreakIdx + 1)) contents;
               contents1 = (if lineBreakIdx \<noteq> - 1 then TrimLeft contents prefix else contents);
               begin1 = (if lineBreakIdx \<noteq> - 1 then ''```'' @ prefix else ''```\<newline>'');
               contents2 = trimRightByte contents1 CHR ''\<newline>''
           in (contents2, ws @ [\<lparr>beginStr = begin1, endStr = ''\<newline>```''\<rparr>], html))
      | HTMLSpan \<Rightarrow>
          (if isHTMLOpeningTag contents then
             ([], ws, html @ [\<lparr>beginStr = contents, endStr = getHTMLClosingTag contents\<rparr>])
           else if length html > 0 \<and> contents = endStr (last html) then
             ([], ws, butlast html)
           else (contents, ws, html))
      | _ \<Rightarrow> (contents, ws, html))"

text \<open>The loop that sums the lengths of the wrappers.\<close>

definition wrappersLen :: "wrapper list \<Rightarrow> int" where
  "wrappersLen ws = foldl (\<lambda>wLen w. wLen + (int (length (beginStr w)) + int (length (endStr w)))) 0 ws"

text \<open>The visitor closure handed to \<open>Walk\<close>; it ignores whether the node is entered or left.\<close>

definition visitor ::
  "int \<Rightarrow> string \<Rightarrow> Node list \<Rightarrow> Node \<Rightarrow> walkState \<Rightarrow> (WalkStatus \<times> walkState) option" where
  "visitor maxLen sep anc node st =
     (if nodeType node = List then Some (Terminate, st\<lparr>canSplit := False\<rparr>)
      else case literal node of
        None \<Rightarrow> Some (GoToNext, st)
      | Some contents \<Rightarrow>
          (case parentLoop st contents anc [] of
             Inl st' \<Rightarrow> Some (GoToNext, st')
           | Inr ws \<Rightarrow>
               (case nodeSwitch node contents ws (htmlWrappers st) of
                  (contents', ws', html') \<Rightarrow>
                    (let st1 = st\<lparr>htmlWrappers := html'\<rparr>;
                         ws2 = ws' @ html';
                         wLen = wrappersLen ws2;
                         sepLen = int (length sep);
                         extraLen = wLen + titleLen st + sepLen
                     in if extraLen \<ge> maxLen then Some (Terminate, st1\<lparr>canSplit := False\<rparr>)
                        else
                          (let chunkLen = maxLen - extraLen in
                           case buildChunks contents' chunkLen ws2 of
                             None \<Rightarrow> None
                           | Some cs \<Rightarrow> Some (GoToNext, st1\<lparr>chunks := chunks st1 @ cs\<rparr>))))))"

text \<open>
  Modelled from the spec: \<open>Walk\<close> of the parser library, calling the visitor on the nodes in
  order until it answers \<open>Terminate\<close>.
\<close>

fun runVisits ::
  "int \<Rightarrow> string \<Rightarrow> (Node list \<times> Node) list \<Rightarrow> walkState \<Rightarrow> walkState option" where
  "runVisits maxLen sep [] st = Some st"
| "runVisits maxLen sep ((anc, node) # rest) st =
     (case visitor maxLen sep anc node st of
        None \<Rightarrow> None
      | Some (Terminate, st') \<Rightarrow> Some st'
      | Some (GoToNext, st') \<Rightarrow> runVisits maxLen sep rest st')"

definition Walk :: "int \<Rightarrow> string \<Rightarrow> Node \<Rightarrow> walkState option" where
  "Walk maxLen sep rootNode = runVisits maxLen sep (walkOrder [] rootNode) initState"

text \<open>The rendering of one chunk in chunksAsStr: the two loops over its wrappers.\<close>

definition chunkStr :: "chunk \<Rightarrow> string" where
  "chunkStr cm =
     (let cmStr = foldl (\<lambda>s w. beginStr w @ s) [] (wrappers cm);
          cmStr = cmStr @ content cm
      in foldl (\<lambda>s w. s @ endStr w) cmStr (wrappers cm))"

text \<open>The loop \<open>for _, cm := range chunks\<close> of chunksAsStr, on \<open>result\<close> and \<open>curChunk\<close>.\<close>

fun chunksAsStr_loop ::
  "chunk list \<Rightarrow> int \<Rightarrow> string \<Rightarrow> string \<Rightarrow> string list \<Rightarrow> int \<Rightarrow> string list" where
  "chunksAsStr_loop [] maxLen bt titleTotalID result curChunk = result"
| "chunksAsStr_loop (cm # rest) maxLen bt titleTotalID result curChunk =
     (let cmStr = chunkStr cm in
      if length result > 0 \<and> int (length (last result)) + int (length cmStr) \<le> maxLen then
        chunksAsStr_loop rest maxLen bt titleTotalID (butlast result @ [last result @ cmStr]) curChunk
      else
        (let cmStr = (if bt \<noteq> [] then bt @ Sprintf_titleSuffix curChunk titleTotalID @ cmStr
                      else cmStr)
         in chunksAsStr_loop rest maxLen bt titleTotalID (result @ [cmStr]) (curChunk + 1)))"

text \<open>
  chunksAsStr. \<open>uuid\<close> is the string of \<open>uuid.New()\<close>, the random token of an external
  library.
\<close>

definition chunksAsStr :: "string \<Rightarrow> chunk list \<Rightarrow> int \<Rightarrow> string \<Rightarrow> string list" where
  "chunksAsStr uuid cs maxLen bt =
     (let titleTotalID = ''<'' @ uuid @ ''>'';
          result = chunksAsStr_loop cs maxLen bt titleTotalID [] 1;
          totalStr = Itoa (int (length result))
      in map (\<lambda>r. Replace1 r titleTotalID totalStr) result)"

text \<open>
  MarkdownSplit. \<open>rootNode\<close> is the tree \<open>md.Parse([]byte(text))\<close> of the external parser and
  \<open>uuid\<close> the token of chunksAsStr.
\<close>

definition MarkdownSplit ::
  "string \<Rightarrow> Node \<Rightarrow> string \<Rightarrow> int \<Rightarrow> string \<Rightarrow> (string list \<times> bool) option" where
  "MarkdownSplit uuid rootNode text maxLen sep =
     (if int (length text) \<le> maxLen then Some ([text], True)
      else if maxLen \<le> int (length sep) then Some ([], False)
      else
        (case Walk maxLen sep rootNode of
           None \<Rightarrow> None
         | Some st \<Rightarrow>
             if \<not> canSplit st then
               (case SimpleSplit text maxLen sep of
                  None \<Rightarrow> None
                | Some cs \<Rightarrow> Some (cs, False))
             else Some (chunksAsStr uuid (chunks st) maxLen (baseTitle st), True)))"

section \<open>Notions used to state the properties\<close>

text \<open>The portion that the loop of SimpleSplit appends at index \<open>i\<close>.\<close>

definition portionAt :: "string \<Rightarrow> string \<Rightarrow> nat \<Rightarrow> nat \<Rightarrow> nat \<Rightarrow> string" where
  "portionAt text sep m n i =
     take m (drop (i * m) text) @ (if i < n - 1 then sep else [])"

text \<open>The consecutive pieces of at most \<open>n\<close> bytes of a string.\<close>

function cutContents :: "nat \<Rightarrow> string \<Rightarrow> string list" where
  "cutContents n s = (if s = [] \<or> n = 0 then [] else take n s # cutContents n (drop n s))"
  by pat_completeness auto
termination
  by (relation "measure (\<lambda>(n, s). length s)") auto

declare cutContents.simps [simp del]

text \<open>A list node somewhere in the tree.\<close>

fun containsList :: "Node \<Rightarrow> bool" where
  "containsList (Node t l lv d ti cs) = (t = List \<or> list_ex containsList cs)"

text \<open>
  The value of \<open>extraLen\<close> that the visitor computes at a node, when it gets that far: the node
  is no list, has a literal and is not taken as the base title.
\<close>

definition extraLenOf :: "string \<Rightarrow> Node list \<Rightarrow> Node \<Rightarrow> walkState \<Rightarrow> int option" where
  "extraLenOf sep anc node st =
     (if nodeType node = List then None
      else case literal node of
        None \<Rightarrow> None
      | Some contents \<Rightarrow>
          (case parentLoop st contents anc [] of
             Inl st' \<Rightarrow> None
           | Inr ws \<Rightarrow>
               (case nodeSwitch node contents ws (htmlWrappers st) of
                  (contents', ws', html') \<Rightarrow>
                    Some (wrappersLen (ws' @ html') + titleLen st + int (length sep)))))"

text \<open>The title that chunksAsStr puts before a new chunk, empty without a base title.\<close>

definition titleOf :: "string \<Rightarrow> string \<Rightarrow> nat \<Rightarrow> string" where
  "titleOf bt titleTotalID i =
     (if bt \<noteq> [] then bt @ Sprintf_titleSuffix (int i) titleTotalID else [])"

text \<open>
  The token is unique: in no chunk does it occur before the place where chunksAsStr puts
  it, and without a base title it occurs in no chunk at all. The external library draws it
  at random for this purpose.
\<close>

definition tokenUnique :: "string \<Rightarrow> chunk list \<Rightarrow> int \<Rightarrow> string \<Rightarrow> bool" where
  "tokenUnique uuid cs maxLen bt =
     (let titleTotalID = ''<'' @ uuid @ ''>'';
          result = chunksAsStr_loop cs maxLen bt titleTotalID [] 1
      in if bt = [] then list_all (\<lambda>r. \<not> Contains r titleTotalID) result
         else list_all
                (\<lambda>i. \<not> Contains (bt @ '' ('' @ Itoa (int i) @ ''/'' @ butlast titleTotalID)
                                 titleTotalID)
                [1..<length result + 1])"

text \<open>
  The first node in the order of the walk that is a list or has a literal, when it is no
  list and lies below a heading: the text \<open>heading + " " + contents\<close> of the closest one.
\<close>

definition leadingHeading :: "Node \<Rightarrow> string option" where
  "leadingHeading rootNode =
     (case find (\<lambda>(anc, node). nodeType node = List \<or> literal node \<noteq> None)
             (walkOrder [] rootNode) of
        None \<Rightarrow> None
      | Some (anc, node) \<Rightarrow>
          (if nodeType node = List then None
           else case (literal node, find (\<lambda>h. nodeType h = Heading) anc) of
             (Some contents, Some h) \<Rightarrow> Some (replicate (level h) CHR ''#'' @ '' '' @ contents)
           | _ \<Rightarrow> None))"

text \<open>
  The chunks \<open>result\<close> of the loop of chunksAsStr are made of the groups \<open>gs\<close> of pieces:
  chunk \<open>i\<close> is its title and the rendered pieces of group \<open>i\<close>, and a chunk of more than
  one piece fits the maximum, as the loop merged into it.
\<close>

definition grouped ::
  "int \<Rightarrow> string \<Rightarrow> string \<Rightarrow> chunk list list \<Rightarrow> string list \<Rightarrow> bool" where
  "grouped maxLen bt tid gs result =
     (length gs = length result \<and>
      (\<forall>i<length result.
         gs ! i \<noteq> [] \<and>
         result ! i = titleOf bt tid (i + 1) @ concat (map chunkStr (gs ! i)) \<and>
         (int (length (result ! i)) \<le> maxLen \<or> (\<exists>p. gs ! i = [p]))))"


text \<open>
  What the walk keeps true of its state: the reserved length of the title is that of the
  base title plus the 20 bytes of MarkdownSplit, and every piece, rendered, leaves room for
  the title and the separator.
\<close>

definition walkInv :: "int \<Rightarrow> string \<Rightarrow> walkState \<Rightarrow> bool" where
  "walkInv maxLen sep st =
     (titleLen st = (if baseTitle st = [] then 0 else int (length (baseTitle st)) + 20) \<and>
      (\<forall>p\<in>set (chunks st).
         int (length (chunkStr p)) + titleLen st + int (length sep) \<le> maxLen))"

text \<open>
  The wrappers as the specification words them, to compare the visitor with. Section 4.1:
  a strikethrough ancestor gives \<open>~~\<close>/\<open>~~\<close>, an emphasis ancestor \<open>_\<close>/\<open>_\<close>, a strong ancestor
  \<open>**\<close>/\<open>**\<close>, a heading ancestor its hashes and a space, closed by an empty line, a link
  ancestor \<open>[\<close>, closed by \<open>](destination "title")\<close> without the title clause for an empty
  title; the wrappers accumulate outward, closest ancestor first.
\<close>

definition spec_decoration :: "Node \<Rightarrow> wrapper option" where
  "spec_decoration a =
     (case nodeType a of
        Del \<Rightarrow> Some \<lparr>beginStr = ''~~'', endStr = ''~~''\<rparr>
      | Emph \<Rightarrow> Some \<lparr>beginStr = ''_'', endStr = ''_''\<rparr>
      | Strong \<Rightarrow> Some \<lparr>beginStr = ''**'', endStr = ''**''\<rparr>
      | Heading \<Rightarrow>
          Some \<lparr>beginStr = replicate (level a) CHR ''#'' @ '' '', endStr = ''\<newline>\<newline>''\<rparr>
      | Link \<Rightarrow>
          Some \<lparr>beginStr = ''['',
                endStr = '']('' @ destination a
                         @ (if title a = [] then [] else '' '' @ [CHR 0x22] @ title a @ [CHR 0x22])
                         @ '')''\<rparr>
      | _ \<Rightarrow> None)"

definition spec_ancestorWrappers :: "Node list \<Rightarrow> wrapper list" where
  "spec_ancestorWrappers anc = List.map_filter spec_decoration anc"

text \<open>
  Section 4.1: the first heading met while there is no base title and no piece yet is taken
  as the base title; the text below it gets no wrapper and gives no piece.
\<close>

definition spec_titleCaptured :: "walkState \<Rightarrow> Node list \<Rightarrow> bool" where
  "spec_titleCaptured s anc =
     (baseTitle s = [] \<and> chunks s = [] \<and> list_ex (\<lambda>a. nodeType a = Heading) anc)"

text \<open>
  Section 4.2: the close text of an opening tag is its text with the first \<open><\<close> replaced by
  \<open></\<close>. An opening tag (a text that does not start with \<open></\<close>) is pushed on the stack with
  its close text; a closing tag that equals the close text on top of the stack pops it; any
  other closing tag leaves the stack as it is. A tag that is pushed or pops has no content.
\<close>

fun spec_closingTag :: "string \<Rightarrow> string" where
  "spec_closingTag [] = []"
| "spec_closingTag (c # s) = (if c = CHR ''<'' then ''</'' @ s else c # spec_closingTag s)"

definition spec_htmlStack :: "wrapper list \<Rightarrow> Node \<Rightarrow> string \<Rightarrow> wrapper list" where
  "spec_htmlStack stack node t =
     (if nodeType node \<noteq> HTMLSpan then stack
      else if take 2 t \<noteq> ''</'' then stack @ [\<lparr>beginStr = t, endStr = spec_closingTag t\<rparr>]
      else if stack \<noteq> [] \<and> endStr (last stack) = t then butlast stack
      else stack)"

definition spec_tagConsumed :: "wrapper list \<Rightarrow> Node \<Rightarrow> string \<Rightarrow> bool" where
  "spec_tagConsumed stack node t =
     (nodeType node = HTMLSpan \<and>
      (take 2 t \<noteq> ''</'' \<or> (stack \<noteq> [] \<and> endStr (last stack) = t)))"

text \<open>
  Section 4.4: the begin wrapper of a code node is the opening fence with the first line of
  the literal and its line break (the fence and a line break when the literal has no line
  break); the end wrapper is a line break and the closing fence.
\<close>

definition spec_codeFence :: "Node \<Rightarrow> string \<Rightarrow> wrapper list" where
  "spec_codeFence node t =
     (if nodeType node \<noteq> Code then []
      else [\<lparr>beginStr = ''```''
                 @ (if CHR ''\<newline>'' \<in> set t
                    then takeWhile (\<lambda>c. c \<noteq> CHR ''\<newline>'') t @ ''\<newline>''
                    else ''\<newline>''),
              endStr = ''\<newline>```''\<rparr>])"

text \<open>
  Sections 4.1, 4.2 and 4.7: what the visit of a node that does not end the walk makes of the
  state \<open>s\<close>. A node without literal changes nothing. The text of the captured title
  leaves pieces and stack as they are. Any other text updates the stack and adds pieces
  (none for a tag that is pushed or pops), each with the wrappers of the ancestors, then
  the code fence, then the open tags of the stack, oldest first.
\<close>

definition spec_visit :: "walkState \<Rightarrow> Node list \<Rightarrow> Node \<Rightarrow> walkState \<Rightarrow> bool" where
  "spec_visit s anc node s' =
     (case literal node of
        None \<Rightarrow> s' = s
      | Some t \<Rightarrow>
          if spec_titleCaptured s anc
          then chunks s' = chunks s \<and> htmlWrappers s' = htmlWrappers s
          else htmlWrappers s' = spec_htmlStack (htmlWrappers s) node t \<and>
               take (length (chunks s)) (chunks s') = chunks s \<and>
               (spec_tagConsumed (htmlWrappers s) node t \<longrightarrow>
                  length (chunks s') = length (chunks s)) \<and>
               list_all
                 (\<lambda>p. wrappers p = spec_ancestorWrappers anc @ spec_codeFence node t
                                     @ spec_htmlStack (htmlWrappers s) node t)
                 (drop (length (chunks s)) (chunks s')))"

text \<open>Nodes of example documents: a container, a leaf with a literal, a heading.\<close>

definition container :: "NodeType \<Rightarrow> Node list \<Rightarrow> Node" where
  "container t cs = Node t None 0 [] [] cs"

definition leaf :: "NodeType \<Rightarrow> string \<Rightarrow> Node" where
  "leaf t s = Node t (Some s) 0 [] [] []"

definition heading :: "nat \<Rightarrow> Node list \<Rightarrow> Node" where
  "heading lv cs = Node Heading None lv [] [] cs"

text \<open>A token as \<open>uuid.New().String()\<close> gives them: 36 bytes.\<close>

definition sampleUuid :: string where
  "sampleUuid = ''123e4567-e89b-12d3-a456-426614174000''"

text \<open>
  A document of a heading \<open># t\<close> and a paragraph of \<open>n\<close> bytes \<open>x\<close>, its text, and
  the piece of one byte \<open>x\<close> without wrappers.
\<close>

definition longDoc :: "nat \<Rightarrow> Node" where
  "longDoc n = container Document
     [heading 1 [leaf Text ''t''], container Paragraph [leaf Text (replicate n CHR ''x'')]]"

definition longText :: "nat \<Rightarrow> string" where
  "longText n = ''# t\<newline>\<newline>'' @ replicate n CHR ''x''"

definition pieceX :: chunk where
  "pieceX = \<lparr>content = ''x'', wrappers = []\<rparr>"

text \<open>The document of the test with a title, and its text.\<close>

definition titledDoc :: Node where
  "titledDoc = container Document
     [heading 3 [leaf Text ''Comment with title''],
      container Paragraph [leaf Text ''Includes the title in every split.'']]"

definition titledText :: string where
  "titledText = ''### Comment with title\<newline>\<newline>Includes the title in every split.''"

text \<open>A paragraph of emphasised text, and the state at the end of its walk.\<close>

definition emphDoc :: Node where
  "emphDoc = container Document [container Paragraph [container Emph [leaf Text ''abcdef'']]]"

definition emphNode :: Node where
  "emphNode = container Emph [leaf Text ''abcdef'']"

definition emphParagraph :: Node where
  "emphParagraph = container Paragraph [emphNode]"

definition emphWrapper :: wrapper where
  "emphWrapper = \<lparr>beginStr = ''_'', endStr = ''_''\<rparr>"

definition emphState :: walkState where
  "emphState = \<lparr>chunks = [\<lparr>content = ''abc'', wrappers = [emphWrapper]\<rparr>,
                            \<lparr>content = ''def'', wrappers = [emphWrapper]\<rparr>],
                  baseTitle = [], titleLen = 0, canSplit = True, htmlWrappers = []\<rparr>"

text \<open>The state at the end of the walk of the document with a title.\<close>

definition titledState :: walkState where
  "titledState = \<lparr>chunks = [\<lparr>content = ''Includes the '', wrappers = []\<rparr>,
                              \<lparr>content = ''title in ever'', wrappers = []\<rparr>,
                              \<lparr>content = ''y split.'', wrappers = []\<rparr>],
                    baseTitle = ''### Comment with title'', titleLen = 42, canSplit = True,
                    htmlWrappers = []\<rparr>"




text \<open>A document with a closing tag \<open></i>\<close> that closes nothing.\<close>

definition strayDoc :: Node where
  "strayDoc = container Document [container Paragraph
     [leaf HTMLSpan ''<b>'', leaf Text ''bold text here'', leaf HTMLSpan ''</i>'',
      leaf Text ''more'', leaf HTMLSpan ''</b>'']]"

definition boldWrapper :: wrapper where
  "boldWrapper = \<lparr>beginStr = ''<b>'', endStr = ''</b>''\<rparr>"

section \<open>Properties of SimpleSplit\<close>

lemma numChunksOf_div: "numChunksOf len maxSize = - ((- len) div maxSize)"
  unfolding numChunksOf_def by (rule ceiling_divide_eq_div)

lemma numChunksOf_bounds:
  assumes "0 < m" "0 < len"
  shows "0 < numChunksOf len m"
    and "(numChunksOf len m - 1) * m < len"
    and "len \<le> numChunksOf len m * m"
proof -
  define q where "q = (- len) div m"
  define r where "r = (- len) mod m"
  have eq: "- len = q * m + r" by (simp add: q_def r_def)
  have r: "0 \<le> r" "r < m" using assms by (simp_all add: r_def)
  have n: "numChunksOf len m = - q" by (simp add: numChunksOf_div q_def)
  have "q * m < 0" using eq r assms by linarith
  then have "q < 0" using assms by (simp add: mult_less_0_iff)
  then show "0 < numChunksOf len m" by (simp add: n)
  have "(- q - 1) * m = - (q * m) - m" by (simp add: algebra_simps)
  then show "(numChunksOf len m - 1) * m < len" using eq r by (simp add: n)
  have "- q * m = - (q * m)" by simp
  then show "len \<le> numChunksOf len m * m" using eq r by (simp add: n)
qed

lemma slice_nat:
  "lo \<le> hi \<Longrightarrow> hi \<le> length s \<Longrightarrow>
     slice s (int lo) (int hi) = Some (take (hi - lo) (drop lo s))"
  unfolding slice_def by (simp add: nat_diff_distrib')

lemma minInt_nat: "minInt (int a) (int b) = int (min a b)"
  unfolding minInt_def by simp

lemma slice_portion:
  assumes "0 < m" "i * m \<le> length text"
  shows "slice text (int i * int m) (minInt (int (length text)) ((int i + 1) * int m))
           = Some (take m (drop (i * m) text))"
proof -
  have lo: "int i * int m = int (i * m)" by simp
  have hi: "(int i + 1) * int m = int (i * m + m)" by (simp add: algebra_simps)
  have le: "i * m \<le> min (length text) (i * m + m)" using assms by simp
  have "take (min (length text) (i * m + m) - i * m) (drop (i * m) text)
          = take m (drop (i * m) text)"
    by (cases "length text < i * m + m") (simp_all add: min_def)
  then show ?thesis
    unfolding lo hi minInt_nat using slice_nat [OF le, of "text"] by simp
qed

lemma SimpleSplit_loop_closed:
  assumes "0 < m" "(n - 1) * m < length text" "i \<le> n"
  shows "SimpleSplit_loop text sep (int m) (int n) (int i) acc
           = Some (acc @ map (portionAt text sep m n) [i..<n])"
  using assms(3)
proof (induction "n - i" arbitrary: i acc)
  case 0
  then have "i = n" by simp
  then show ?case by (simp add: SimpleSplit_loop.simps)
next
  case (Suc k)
  then have lt: "i < n" by simp
  then have "i \<le> n - 1" by simp
  then have "i * m \<le> (n - 1) * m" by (rule mult_le_mono1)
  then have "i * m \<le> length text" using assms(2) by linarith
  from slice_portion [OF assms(1) this]
  have sl: "slice text (int i * int m) (minInt (int (length text)) ((int i + 1) * int m))
              = Some (take m (drop (i * m) text))" .
  have cond: "(int i < int n - 1) = (i < n - 1)" using lt by auto
  have IH: "SimpleSplit_loop text sep (int m) (int n) (int i + 1) acc'
              = Some (acc' @ map (portionAt text sep m n) [Suc i..<n])" for acc'
    using Suc.hyps(1) [of "Suc i" acc'] Suc.hyps(2) lt by (simp add: add.commute)
  have step: "SimpleSplit_loop text sep (int m) (int n) (int i) acc
                = SimpleSplit_loop text sep (int m) (int n) (int i + 1)
                    (acc @ [portionAt text sep m n i])"
    using lt sl cond
    by (subst SimpleSplit_loop.simps) (simp add: portionAt_def)
  have "[i..<n] = i # [Suc i..<n]" using lt by (simp add: upt_conv_Cons)
  then show ?case
    unfolding step IH by simp
qed

lemma SimpleSplit_closed:
  assumes "maxLen < int (length text)" "int (length sep) < maxLen"
  shows "SimpleSplit text maxLen sep =
           Some (map (portionAt text sep (nat (maxLen - int (length sep)))
                        (nat (numChunksOf (int (length text)) (maxLen - int (length sep)))))
                   [0..<nat (numChunksOf (int (length text)) (maxLen - int (length sep)))])"
proof -
  define m where "m = nat (maxLen - int (length sep))"
  define n where "n = nat (numChunksOf (int (length text)) (int m))"
  have m: "0 < m" and im: "maxLen - int (length sep) = int m"
    using assms by (simp_all add: m_def)
  have len: "0 < int (length text)" using assms by linarith
  have n: "numChunksOf (int (length text)) (int m) = int n"
    using numChunksOf_bounds(1) [of "int m", OF _ len] m by (simp add: n_def)
  have "(int n - 1) * int m < int (length text)"
    using numChunksOf_bounds(2) [of "int m", OF _ len] m by (simp add: n)
  moreover have "0 < n" using numChunksOf_bounds(1) [of "int m", OF _ len] m n by simp
  ultimately have "int ((n - 1) * m) < int (length text)"
    by simp
  then have "(n - 1) * m < length text" by linarith
  from SimpleSplit_loop_closed [OF m this, of 0 sep "[]"]
  have "SimpleSplit_loop text sep (int m) (int n) 0 [] = Some (map (portionAt text sep m n) [0..<n])"
    by simp
  then show ?thesis
    using assms unfolding SimpleSplit_def Let_def im n by (simp add: n_def [symmetric])
qed

lemma concat_portions:
  "concat (map (\<lambda>i. take m (drop (i * m) text)) [0..<k]) = take (k * m) text"
proof (induction k)
  case 0
  show ?case by simp
next
  case (Suc k)
  have "take (k * m) text @ take m (drop (k * m) text) = take (k * m + m) text"
    by (simp add: take_add)
  then show ?case using Suc by (simp add: add.commute)
qed

lemma portions_butlast:
  assumes "0 < n" "(n - 1) * m < length text"
  shows "\<forall>i<n - 1. portionAt text sep m n i = take m (drop (i * m) text) @ sep
           \<and> length (take m (drop (i * m) text)) = m"
proof (intro allI impI)
  fix i assume i: "i < n - 1"
  then have "Suc i \<le> n - 1" by simp
  then have "Suc i * m \<le> (n - 1) * m" by (rule mult_le_mono1)
  then have "i * m + m \<le> length text" using assms(2) by simp
  then have "length (take m (drop (i * m) text)) = m" by simp
  then show "portionAt text sep m n i = take m (drop (i * m) text) @ sep
           \<and> length (take m (drop (i * m) text)) = m"
    using i by (simp add: portionAt_def)
qed

lemma portions_lossless:
  fixes sep :: string and "text" :: string
  assumes "0 < n" "(n - 1) * m < length text" "length text \<le> n * m"
  defines "pcs \<equiv> map (portionAt text sep m n) [0..<n]"
  shows "pcs \<noteq> []"
    and "\<forall>c\<in>set (butlast pcs). length c = m + length sep
            \<and> drop (length c - length sep) c = sep"
    and "concat (map (\<lambda>c. take (length c - length sep) c) (butlast pcs)) @ last pcs = text"
proof -
  note P = portions_butlast [OF assms(1,2), of sep]
  have n: "[0..<n] = [0..<n - 1] @ [n - 1]"
    using assms(1) by (metis Suc_diff_1 upt_Suc_append zero_le)
  have bl: "butlast pcs = map (\<lambda>i. take m (drop (i * m) text) @ sep) [0..<n - 1]"
    unfolding pcs_def using P by (subst n) (simp add: butlast_append)
  have la: "last pcs = drop ((n - 1) * m) text"
  proof -
    have "length text - (n - 1) * m \<le> m"
      using assms by (cases n) (simp_all add: algebra_simps)
    then show ?thesis unfolding pcs_def by (subst n) (simp add: portionAt_def)
  qed
  show "pcs \<noteq> []" using assms(1) by (simp add: pcs_def)
  show "\<forall>c\<in>set (butlast pcs). length c = m + length sep
            \<and> drop (length c - length sep) c = sep"
    unfolding bl using P by auto
  have "map (\<lambda>c. take (length c - length sep) c) (butlast pcs)
          = map (\<lambda>i. take m (drop (i * m) text)) [0..<n - 1]"
    unfolding bl using P by simp
  then show "concat (map (\<lambda>c. take (length c - length sep) c) (butlast pcs)) @ last pcs = text"
    by (simp add: concat_portions la)
qed



section \<open>Properties of buildChunks\<close>

lemma cutContents_Nil [simp]: "cutContents n [] = []"
  by (simp add: cutContents.simps)

lemma cutContents_step:
  "0 < n \<Longrightarrow> s \<noteq> [] \<Longrightarrow> cutContents n s = take n s # cutContents n (drop n s)"
  by (subst cutContents.simps) simp

lemma buildChunks_loop_closed:
  assumes "0 < chunkLen"
  shows "buildChunks_loop contents chunkLen ws acc
           = Some (acc @ map (\<lambda>c. \<lparr>content = c, wrappers = ws\<rparr>) (cutContents (nat chunkLen) contents))"
proof (induction "length contents" arbitrary: contents acc rule: less_induct)
  case less
  define n where "n = nat chunkLen"
  have n: "0 < n" "chunkLen = int n" using assms by (simp_all add: n_def)
  show ?case
  proof (cases "contents = []")
    case True
    then show ?thesis by (subst buildChunks_loop.simps) simp
  next
    case ne: False
    show ?thesis
    proof (cases "int (length contents) \<le> chunkLen")
      case True
      then have "cutContents n contents = [contents]"
        using ne n by (simp add: cutContents_step)
      moreover have "buildChunks_loop [] chunkLen ws acc' = Some acc'" for acc'
        by (subst buildChunks_loop.simps) simp
      ultimately show ?thesis
        using ne True by (subst buildChunks_loop.simps) (simp add: n_def [symmetric])
    next
      case False
      then have lt: "n < length contents" using n by simp
      have s1: "slice contents 0 chunkLen = Some (take n contents)"
        using slice_nat [of 0 n contents] lt n by simp
      have s2: "slice contents chunkLen (int (length contents)) = Some (drop n contents)"
        using slice_nat [of n "length contents" contents] lt n by simp
      have IH: "buildChunks_loop (drop n contents) chunkLen ws acc'
                  = Some (acc' @ map (\<lambda>c. \<lparr>content = c, wrappers = ws\<rparr>)
                                   (cutContents n (drop n contents)))" for acc'
        using less [of "drop n contents" acc'] lt n(1) by (simp add: n_def [symmetric])
      have step: "buildChunks_loop contents chunkLen ws acc
                    = buildChunks_loop (drop n contents) chunkLen ws
                        (acc @ [\<lparr>content = take n contents, wrappers = ws\<rparr>])"
        by (subst buildChunks_loop.simps) (simp only: ne False s1 s2 if_True if_False not_False_eq_True Option.bind.simps)
      show ?thesis
        unfolding step IH n_def [symmetric] cutContents_step [OF n(1) ne] by simp
    qed
  qed
qed

lemma concat_cutContents: "0 < n \<Longrightarrow> concat (cutContents n s) = s"
proof (induction "length s" arbitrary: s rule: less_induct)
  case less
  show ?case
  proof (cases "s = []")
    case True then show ?thesis by simp
  next
    case False
    then have "length (drop n s) < length s" using less.prems by simp
    then have "concat (cutContents n (drop n s)) = drop n s" using less by blast
    then show ?thesis using False less.prems by (simp add: cutContents_step)
  qed
qed

lemma length_cutContents: "0 < n \<Longrightarrow> c \<in> set (cutContents n s) \<Longrightarrow> length c \<le> n \<and> c \<noteq> []"
proof (induction "length s" arbitrary: s rule: less_induct)
  case less
  show ?case
  proof (cases "s = []")
    case True then show ?thesis using less.prems by simp
  next
    case False
    then have l: "length (drop n s) < length s" using less.prems by simp
    from less.prems False have "c = take n s \<or> c \<in> set (cutContents n (drop n s))"
      by (simp add: cutContents_step)
    then show ?thesis
    proof
      assume "c = take n s" then show ?thesis using False less.prems by simp
    next
      assume "c \<in> set (cutContents n (drop n s))"
      then show ?thesis using less.hyps [OF l less.prems(1)] by blast
    qed
  qed
qed

lemma buildChunks_closed:
  "0 < chunkLen \<Longrightarrow>
     buildChunks contents chunkLen ws
       = Some (map (\<lambda>c. \<lparr>content = c, wrappers = ws\<rparr>) (cutContents (nat chunkLen) contents))"
  unfolding buildChunks_def by (simp add: buildChunks_loop_closed)

section \<open>Properties of the visitor and of the walk\<close>

lemma visitor_form:
  "visitor maxLen sep anc node st =
     (if nodeType node = List then Some (Terminate, st\<lparr>canSplit := False\<rparr>)
      else case literal node of
        None \<Rightarrow> Some (GoToNext, st)
      | Some contents \<Rightarrow>
          (case parentLoop st contents anc [] of
             Inl st' \<Rightarrow> Some (GoToNext, st')
           | Inr ws \<Rightarrow>
               (case nodeSwitch node contents ws (htmlWrappers st) of
                  (contents', ws', html') \<Rightarrow>
                    if maxLen \<le> wrappersLen (ws' @ html') + titleLen st + int (length sep)
                    then Some (Terminate, st\<lparr>htmlWrappers := html', canSplit := False\<rparr>)
                    else Some (GoToNext,
                      st\<lparr>htmlWrappers := html',
                         chunks := chunks st @ map (\<lambda>c. \<lparr>content = c, wrappers = ws' @ html'\<rparr>)
                           (cutContents
                              (nat (maxLen - (wrappersLen (ws' @ html') + titleLen st + int (length sep))))
                              contents')\<rparr>))))"
  unfolding visitor_def Let_def
  by (auto split: option.splits sum.splits prod.splits simp: buildChunks_closed)

lemma parentLoop_Inl:
  "parentLoop st contents anc ws = Inl t \<Longrightarrow>
     baseTitle st = [] \<and> chunks st = [] \<and>
     (\<exists>h\<in>set anc. nodeType h = Heading \<and>
        t = st\<lparr>baseTitle := replicate (level h) CHR ''#'' @ '' '' @ contents,
               titleLen := int (length (replicate (level h) CHR ''#'' @ '' '' @ contents)) + 20\<rparr>)"
proof (induction anc arbitrary: ws)
  case Nil
  then show ?case by simp
next
  case (Cons parent up)
  show ?case
  proof (cases "nodeType parent = Heading \<and> baseTitle st = [] \<and> chunks st = []")
    case True
    then show ?thesis using Cons.prems by (auto simp: Let_def titleSuffixFmt_def)
  next
    case False
    then obtain ws' where "parentLoop st contents up ws' = Inl t"
      using Cons.prems by (cases "nodeType parent") (auto simp: Let_def split: if_splits)
    from Cons.IH [OF this] show ?thesis by auto
  qed
qed

lemma visitor_Some: "\<exists>s st'. visitor maxLen sep anc node st = Some (s, st')"
  unfolding visitor_form by (auto split: option.splits sum.splits prod.splits)

lemma visitor_canSplit:
  assumes "visitor maxLen sep anc node st = Some (s, st')" "canSplit st"
  shows "(s = Terminate \<and> \<not> canSplit st') \<or> (s = GoToNext \<and> canSplit st')"
  using assms unfolding visitor_form
  by (auto split: option.splits sum.splits prod.splits if_splits dest!: parentLoop_Inl)

lemma visitor_List:
  "nodeType node = List \<Longrightarrow> visitor maxLen sep anc node st = Some (Terminate, st\<lparr>canSplit := False\<rparr>)"
  by (simp add: visitor_form)

lemma runVisits_Some: "\<exists>st'. runVisits maxLen sep xs st = Some st'"
proof (induction xs arbitrary: st)
  case Nil
  show ?case by simp
next
  case (Cons x xs)
  obtain anc node where x: "x = (anc, node)" by (cases x)
  obtain s st1 where v: "visitor maxLen sep anc node st = Some (s, st1)"
    using visitor_Some by blast
  show ?case using Cons.IH [of st1] by (cases s) (simp_all add: x v)
qed

lemma runVisits_append:
  assumes "canSplit st"
  shows "runVisits maxLen sep (xs @ ys) st =
           (case runVisits maxLen sep xs st of
              None \<Rightarrow> None
            | Some st' \<Rightarrow> if canSplit st' then runVisits maxLen sep ys st' else Some st')"
  using assms
proof (induction xs arbitrary: st)
  case Nil
  then show ?case by simp
next
  case (Cons x xs)
  obtain anc node where x: "x = (anc, node)" by (cases x)
  obtain s st1 where v: "visitor maxLen sep anc node st = Some (s, st1)"
    using visitor_Some by blast
  from visitor_canSplit [OF v Cons.prems] show ?case
    using Cons.IH [of st1] by (auto simp: x v)
qed

lemma runVisits_invariant:
  assumes step: "\<And>anc node st s st'. P st \<Longrightarrow> visitor maxLen sep anc node st = Some (s, st') \<Longrightarrow> P st'"
    and "P st" "runVisits maxLen sep xs st = Some st'"
  shows "P st'"
  using assms(2,3)
proof (induction xs arbitrary: st)
  case Nil
  then show ?case by simp
next
  case (Cons x xs)
  obtain anc node where x: "x = (anc, node)" by (cases x)
  obtain s st1 where v: "visitor maxLen sep anc node st = Some (s, st1)"
    using visitor_Some by blast
  have P1: "P st1" using step [OF Cons.prems(1) v] .
  show ?case
  proof (cases s)
    case Terminate
    then show ?thesis using Cons.prems(2) P1 by (simp add: x v)
  next
    case GoToNext
    then show ?thesis using Cons.prems(2) Cons.IH [OF P1] by (simp add: x v)
  qed
qed

lemma runVisits_List:
  assumes "canSplit st" "(anc, node) \<in> set xs" "nodeType node = List"
    "runVisits maxLen sep xs st = Some st'"
  shows "\<not> canSplit st'"
  using assms(1,2,4)
proof (induction xs arbitrary: st)
  case Nil
  then show ?case by simp
next
  case (Cons x xs)
  obtain a n where x: "x = (a, n)" by (cases x)
  obtain s st1 where v: "visitor maxLen sep a n st = Some (s, st1)"
    using visitor_Some by blast
  from visitor_canSplit [OF v Cons.prems(1)] show ?case
  proof
    assume "s = Terminate \<and> \<not> canSplit st1"
    then show ?thesis using Cons.prems(3) by (simp add: x v)
  next
    assume g: "s = GoToNext \<and> canSplit st1"
    then have "x \<noteq> (anc, node)"
      using visitor_List [OF assms(3), of maxLen sep anc st] v x by auto
    then have "(anc, node) \<in> set xs" using Cons.prems(2) by simp
    moreover have "runVisits maxLen sep xs st1 = Some st'"
      using g Cons.prems(3) by (simp add: x v)
    ultimately show ?thesis using Cons.IH [of st1] g by blast
  qed
qed

lemma containsList_walkOrder:
  "containsList node \<Longrightarrow> \<exists>a n. (a, n) \<in> set (walkOrder anc node) \<and> nodeType n = List"
proof (induction node arbitrary: anc)
  case (Node t l lv d ti cs)
  show ?case
  proof (cases "t = List")
    case True
    then show ?thesis by (intro exI [of _ anc] exI [of _ "Node t l lv d ti cs"]) simp
  next
    case False
    then obtain c where c: "c \<in> set cs" "containsList c"
      using Node.prems by (auto simp: list_ex_iff)
    from Node.IH [OF c, of "Node t l lv d ti cs # anc"] c(1) show ?thesis
      by auto
  qed
qed

lemma SimpleSplit_Some: "\<exists>cs. SimpleSplit text maxLen sep = Some cs"
proof (cases "maxLen < int (length text) \<and> int (length sep) < maxLen")
  case True
  then show ?thesis using SimpleSplit_closed by blast
next
  case False
  then show ?thesis by (auto simp: SimpleSplit_def)
qed

lemma Walk_Some: "\<exists>st. Walk maxLen sep rootNode = Some st"
  unfolding Walk_def by (rule runVisits_Some)

lemma canSplit_initState [simp]: "canSplit initState"
  by (simp add: initState_def)

lemma MarkdownSplit_fallback:
  assumes "maxLen < int (length text)" "Walk maxLen sep rootNode = Some st" "\<not> canSplit st"
  shows "\<exists>cs. SimpleSplit text maxLen sep = Some cs
           \<and> MarkdownSplit uuid rootNode text maxLen sep = Some (cs, False)"
proof -
  obtain cs where cs: "SimpleSplit text maxLen sep = Some cs" using SimpleSplit_Some by blast
  show ?thesis
  proof (cases "maxLen \<le> int (length sep)")
    case True
    then show ?thesis using assms(1) by (simp add: SimpleSplit_def MarkdownSplit_def)
  next
    case False
    then show ?thesis using assms cs by (simp add: MarkdownSplit_def)
  qed
qed

section \<open>Properties of chunkStr and of the replacement of the token\<close>

lemma foldl_begin: "foldl (\<lambda>s w. beginStr w @ s) acc ws = concat (rev (map beginStr ws)) @ acc"
  by (induction ws arbitrary: acc) simp_all

lemma foldl_end: "foldl (\<lambda>s w. s @ endStr w) acc ws = acc @ concat (map endStr ws)"
  by (induction ws arbitrary: acc) simp_all

lemma chunkStr_nested:
  "chunkStr cm = concat (rev (map beginStr (wrappers cm))) @ content cm
                   @ concat (map endStr (wrappers cm))"
  by (simp add: chunkStr_def Let_def foldl_begin foldl_end)

lemma foldl_wLen:
  "foldl (\<lambda>wLen w. wLen + (int (length (beginStr w)) + int (length (endStr w)))) acc ws
     = acc + (\<Sum>w\<leftarrow>ws. int (length (beginStr w)) + int (length (endStr w)))"
  by (induction ws arbitrary: acc) simp_all

lemma length_chunkStr:
  "int (length (chunkStr cm)) = wrappersLen (wrappers cm) + int (length (content cm))"
proof -
  have "int (length (concat (map beginStr ws))) + int (length (concat (map endStr ws)))
          = (\<Sum>w\<leftarrow>ws. int (length (beginStr w)) + int (length (endStr w)))" for ws :: "wrapper list"
    by (induction ws) simp_all
  then show ?thesis
    by (simp add: chunkStr_nested wrappersLen_def foldl_wLen length_concat_rev)
qed

lemma wrappersLen_nonneg: "0 \<le> wrappersLen ws"
  unfolding wrappersLen_def foldl_wLen by (induction ws) simp_all

lemma HasPrefix_append [simp]: "HasPrefix (old @ r) old"
  by (simp add: HasPrefix_def)

lemma HasPrefix_length: "HasPrefix s old \<Longrightarrow> length old \<le> length s"
proof -
  assume "HasPrefix s old"
  then have "length (take (length old) s) = length old" by (simp add: HasPrefix_def)
  then show ?thesis by simp
qed

lemma length_Replace1_occurs:
  "length (Replace1 (a @ old @ b) old new) + length old = length (a @ old @ b) + length new"
proof (induction a)
  case Nil
  show ?case
  proof (cases "old @ b")
    case Nil then show ?thesis by simp
  next
    case (Cons c s)
    have "HasPrefix (c # s) old" unfolding Cons [symmetric] by simp
    then have "Replace1 (c # s) old new = new @ drop (length old) (c # s)" by simp
    then show ?thesis unfolding append_Nil Cons [symmetric] by simp
  qed
next
  case (Cons c a)
  show ?case
  proof (cases "HasPrefix (c # a @ old @ b) old")
    case True
    from HasPrefix_length [OF this] show ?thesis using True by simp
  next
    case False
    then show ?thesis using Cons by simp
  qed
qed

lemma length_Replace1_le:
  "length new \<le> length old \<Longrightarrow> length (Replace1 s old new) \<le> length s"
proof (induction s)
  case Nil
  then show ?case by auto
next
  case (Cons c s)
  show ?case
  proof (cases "HasPrefix (c # s) old")
    case True
    from HasPrefix_length [OF this] show ?thesis using True Cons.prems by simp
  next
    case False
    then show ?thesis using Cons by simp
  qed
qed

lemma Replace1_absent: "\<not> Contains s old \<Longrightarrow> Replace1 s old new = s"
  by (induction s) auto

lemma take_append_le: "n \<le> length xs \<Longrightarrow> take n (xs @ ys) = take n xs"
  by simp

lemma HasPrefix_butlast:
  assumes "old \<noteq> []" "length old \<le> length (q @ butlast old)"
  shows "HasPrefix (q @ old @ r) old = HasPrefix (q @ butlast old) old"
proof -
  have "q @ old @ r = (q @ butlast old) @ ([last old] @ r)"
    using assms(1) by (metis append.assoc append_butlast_last_id)
  then have "take (length old) (q @ old @ r) = take (length old) (q @ butlast old)"
    using take_append_le [OF assms(2)] by metis
  then show ?thesis by (simp add: HasPrefix_def)
qed

lemma Replace1_first:
  assumes "old \<noteq> []" "\<not> Contains (p @ butlast old) old"
  shows "Replace1 (p @ old @ r) old new = p @ new @ r"
  using assms(2)
proof (induction p)
  case Nil
  obtain c s where cs: "old @ r = c # s" using assms(1) by (cases old) auto
  have "HasPrefix (c # s) old" unfolding cs [symmetric] by simp
  then have "Replace1 (c # s) old new = new @ drop (length old) (c # s)" by simp
  then show ?case unfolding append_Nil cs [symmetric] by simp
next
  case (Cons c p)
  have len: "length old \<le> length ((c # p) @ butlast old)" by simp
  have "HasPrefix ((c # p) @ old @ r) old = HasPrefix ((c # p) @ butlast old) old"
    by (rule HasPrefix_butlast [OF assms(1) len])
  moreover have "\<not> HasPrefix ((c # p) @ butlast old) old" "\<not> Contains (p @ butlast old) old"
    using Cons.prems by simp_all
  ultimately show ?case using Cons.IH by simp
qed
section \<open>Properties of chunksAsStr\<close>

lemma groupedD:
  assumes "grouped maxLen bt tid gs result" "i < length result"
  shows "gs ! i \<noteq> []"
    and "result ! i = titleOf bt tid (i + 1) @ concat (map chunkStr (gs ! i))"
    and "int (length (result ! i)) \<le> maxLen \<or> (\<exists>p. gs ! i = [p])"
  using assms unfolding grouped_def by blast+

lemma grouped_length: "grouped maxLen bt tid gs result \<Longrightarrow> length gs = length result"
  unfolding grouped_def by blast

lemma grouped_merge:
  assumes "grouped maxLen bt tid gs result" "result \<noteq> []"
    "int (length (last result)) + int (length (chunkStr cm)) \<le> maxLen"
  shows "grouped maxLen bt tid (butlast gs @ [last gs @ [cm]])
           (butlast result @ [last result @ chunkStr cm])"
proof -
  define n where "n = length result"
  have len: "length gs = n" "length result = n" "0 < n"
    using grouped_length [OF assms(1)] assms(2) by (simp_all add: n_def)
  have gne: "gs \<noteq> []" using len by auto
  have lastr: "last result = result ! (n - 1)" using assms(2) len by (simp add: last_conv_nth)
  have lastg: "last gs = gs ! (n - 1)" using gne len by (simp add: last_conv_nth)
  have nth_r: "(butlast result @ [x]) ! i = (if i = n - 1 then x else result ! i)" if "i < n" for i x
    using that len by (auto simp: nth_append nth_butlast)
  have nth_g: "(butlast gs @ [x]) ! i = (if i = n - 1 then x else gs ! i)" if "i < n" for i x
    using that len by (auto simp: nth_append nth_butlast)
  show ?thesis
    unfolding grouped_def
  proof (intro conjI allI impI)
    show "length (butlast gs @ [last gs @ [cm]]) = length (butlast result @ [last result @ chunkStr cm])"
      using len by simp
  next
    fix i assume "i < length (butlast result @ [last result @ chunkStr cm])"
    then have i: "i < n" using len by simp
    then have i': "i < length result" using len by simp
    note G = groupedD [OF assms(1) i']
    show "(butlast gs @ [last gs @ [cm]]) ! i \<noteq> []"
      unfolding nth_g [OF i] using G(1) by simp
    show "(butlast result @ [last result @ chunkStr cm]) ! i
            = titleOf bt tid (i + 1) @ concat (map chunkStr ((butlast gs @ [last gs @ [cm]]) ! i))"
    proof (cases "i = n - 1")
      case True
      then show ?thesis
        unfolding nth_g [OF i] nth_r [OF i] lastr lastg using G(2) by simp
    next
      case False
      then show ?thesis
        unfolding nth_g [OF i] nth_r [OF i] using G(2) by simp
    qed
    show "int (length ((butlast result @ [last result @ chunkStr cm]) ! i)) \<le> maxLen
            \<or> (\<exists>p. (butlast gs @ [last gs @ [cm]]) ! i = [p])"
      unfolding nth_g [OF i] nth_r [OF i] using G(3) assms(3) by simp
  qed
qed

lemma grouped_new:
  assumes "grouped maxLen bt tid gs result"
  shows "grouped maxLen bt tid (gs @ [[cm]])
           (result @ [titleOf bt tid (length result + 1) @ chunkStr cm])"
proof -
  define n where "n = length result"
  have len: "length gs = n" "length result = n"
    using grouped_length [OF assms] by (simp_all add: n_def)
  let ?r = "result @ [titleOf bt tid (length result + 1) @ chunkStr cm]"
  show ?thesis
    unfolding grouped_def
  proof (intro conjI allI impI)
    show "length (gs @ [[cm]]) = length ?r" using len by simp
  next
    fix i assume "i < length ?r"
    then have "i < n \<or> i = n" using len by auto
    then show "(gs @ [[cm]]) ! i \<noteq> []"
      and "?r ! i = titleOf bt tid (i + 1) @ concat (map chunkStr ((gs @ [[cm]]) ! i))"
      and "int (length (?r ! i)) \<le> maxLen \<or> (\<exists>p. (gs @ [[cm]]) ! i = [p])"
    proof -
      assume *: "i < n \<or> i = n"
      show "(gs @ [[cm]]) ! i \<noteq> []"
      proof (cases "i < n")
        case True
        then show ?thesis using groupedD(1) [OF assms, of i] len by (simp add: nth_append)
      next
        case False
        then show ?thesis using * len by (simp add: nth_append)
      qed
      show "?r ! i = titleOf bt tid (i + 1) @ concat (map chunkStr ((gs @ [[cm]]) ! i))"
      proof (cases "i < n")
        case True
        then show ?thesis using groupedD(2) [OF assms, of i] len by (simp add: nth_append)
      next
        case False
        then show ?thesis using * len by (simp add: nth_append)
      qed
      show "int (length (?r ! i)) \<le> maxLen \<or> (\<exists>p. (gs @ [[cm]]) ! i = [p])"
      proof (cases "i < n")
        case True
        then show ?thesis using groupedD(3) [OF assms, of i] len by (simp add: nth_append)
      next
        case False
        then show ?thesis using * len by (simp add: nth_append)
      qed
    qed
  qed
qed

lemma concat_butlast_last: "gs \<noteq> [] \<Longrightarrow> concat (butlast gs) @ last gs = concat gs"
  by (induction gs rule: rev_induct) simp_all

lemma chunksAsStr_loop_grouped:
  assumes "grouped maxLen bt tid gs result"
  shows "\<exists>gs'. grouped maxLen bt tid gs'
                  (chunksAsStr_loop cs maxLen bt tid result (int (length result) + 1))
               \<and> concat gs' = concat gs @ cs"
  using assms
proof (induction cs arbitrary: gs result)
  case Nil
  then show ?case by auto
next
  case (Cons cm rest)
  have len: "length gs = length result" using Cons.prems by (simp add: grouped_def)
  show ?case
  proof (cases "length result > 0 \<and> int (length (last result)) + int (length (chunkStr cm)) \<le> maxLen")
    case True
    then have ne: "result \<noteq> []" by auto
    from grouped_merge [OF Cons.prems ne] True
    have g: "grouped maxLen bt tid (butlast gs @ [last gs @ [cm]])
               (butlast result @ [last result @ chunkStr cm])" by simp
    have l: "length (butlast result @ [last result @ chunkStr cm]) = length result"
      using ne by simp
    from Cons.IH [OF g] obtain gs' where gs': "grouped maxLen bt tid gs'
        (chunksAsStr_loop rest maxLen bt tid (butlast result @ [last result @ chunkStr cm])
           (int (length result) + 1))"
        "concat gs' = concat (butlast gs @ [last gs @ [cm]]) @ rest"
      unfolding l by blast
    have "gs \<noteq> []" using len ne by auto
    then have "concat gs' = concat gs @ cm # rest"
      using gs'(2) concat_butlast_last [of gs] by simp
    moreover have "chunksAsStr_loop (cm # rest) maxLen bt tid result (int (length result) + 1)
                     = chunksAsStr_loop rest maxLen bt tid
                         (butlast result @ [last result @ chunkStr cm]) (int (length result) + 1)"
      using True by (simp add: Let_def)
    ultimately show ?thesis using gs'(1) by auto
  next
    case False
    let ?new = "titleOf bt tid (length result + 1) @ chunkStr cm"
    from grouped_new [OF Cons.prems]
    have g: "grouped maxLen bt tid (gs @ [[cm]]) (result @ [?new])" .
    from Cons.IH [OF g] obtain gs' where gs': "grouped maxLen bt tid gs'
        (chunksAsStr_loop rest maxLen bt tid (result @ [?new]) (int (length (result @ [?new])) + 1))"
        "concat gs' = concat (gs @ [[cm]]) @ rest"
      by blast
    have "chunksAsStr_loop (cm # rest) maxLen bt tid result (int (length result) + 1)
            = chunksAsStr_loop rest maxLen bt tid (result @ [?new]) (int (length (result @ [?new])) + 1)"
      using False by (auto simp: Let_def titleOf_def add.commute)
    then show ?thesis using gs' by auto
  qed
qed

lemma chunksAsStr_loop_groups:
  "\<exists>gs. grouped maxLen bt tid gs (chunksAsStr_loop cs maxLen bt tid [] 1) \<and> concat gs = cs"
  using chunksAsStr_loop_grouped [of maxLen bt tid "[]" "[]" cs]
  by (simp add: grouped_def)

section \<open>The invariant of the walk, and lengths\<close>

lemma walkInv_initState: "walkInv maxLen sep initState"
  by (simp add: walkInv_def initState_def)

lemma visitor_walkInv:
  assumes inv: "walkInv maxLen sep st" and v: "visitor maxLen sep anc node st = Some (s, st')"
  shows "walkInv maxLen sep st'"
proof (cases "nodeType node = List")
  case True
  then show ?thesis using inv v by (auto simp: visitor_form walkInv_def)
next
  case notList: False
  show ?thesis
  proof (cases "literal node")
    case None
    then show ?thesis using inv v notList by (simp add: visitor_form)
  next
    case (Some contents)
    show ?thesis
    proof (cases "parentLoop st contents anc []")
      case (Inl t)
      then have "st' = t" using v notList Some by (simp add: visitor_form)
      then show ?thesis using parentLoop_Inl [OF Inl] by (auto simp: walkInv_def)
    next
      case (Inr ws)
      obtain c' ws' html' where sw: "nodeSwitch node contents ws (htmlWrappers st) = (c', ws', html')"
        by (cases "nodeSwitch node contents ws (htmlWrappers st)") auto
      define extra where "extra = wrappersLen (ws' @ html') + titleLen st + int (length sep)"
      show ?thesis
      proof (cases "maxLen \<le> extra")
        case True
        then have "st' = st\<lparr>htmlWrappers := html', canSplit := False\<rparr>"
          using v notList Some Inr sw by (simp add: visitor_form extra_def)
        then show ?thesis using inv unfolding walkInv_def by (auto split: if_splits)
      next
        case False
        define n where "n = nat (maxLen - extra)"
        have n: "0 < n" "int n = maxLen - extra" using False by (simp_all add: n_def)
        have st': "st' = st\<lparr>htmlWrappers := html',
                     chunks := chunks st @ map (\<lambda>c. \<lparr>content = c, wrappers = ws' @ html'\<rparr>)
                                 (cutContents n c')\<rparr>"
          using v notList Some Inr sw False by (simp add: visitor_form extra_def n_def)
        have new: "int (length (chunkStr \<lparr>content = c, wrappers = ws' @ html'\<rparr>))
                     + titleLen st + int (length sep) \<le> maxLen"
          if "c \<in> set (cutContents n c')" for c
        proof -
          have "int (length c) \<le> int n" using length_cutContents [OF n(1) that] by simp
          then show ?thesis unfolding length_chunkStr n(2) extra_def by simp
        qed
        show ?thesis
          unfolding walkInv_def st' using inv new by (auto simp: walkInv_def)
      qed
    qed
  qed
qed

lemma Walk_walkInv: "Walk maxLen sep rootNode = Some st \<Longrightarrow> walkInv maxLen sep st"
  unfolding Walk_def
  using runVisits_invariant [of "walkInv maxLen sep" maxLen sep initState]
    visitor_walkInv walkInv_initState by blast

lemma length_digitsOf: "0 < k \<Longrightarrow> n < 10 ^ k \<Longrightarrow> length (digitsOf n) \<le> k"
proof (induction k arbitrary: n)
  case 0
  then show ?case by simp
next
  case (Suc k)
  show ?case
  proof (cases "n < 10")
    case True
    then show ?thesis by (subst digitsOf.simps) simp
  next
    case False
    then have k: "0 < k" using Suc.prems by (cases k) auto
    have "n div 10 < 10 ^ k" using Suc.prems(2) by (simp add: less_mult_imp_div_less mult.commute)
    from Suc.IH [OF k this] show ?thesis using False by (subst digitsOf.simps) simp
  qed
qed

lemma length_Itoa: "n < 10000000 \<Longrightarrow> length (Itoa (int n)) \<le> 7"
  using length_digitsOf [of 7 n] by (simp add: Itoa_def)

lemma SimpleSplit_length_bound:
  assumes "SimpleSplit text maxLen sep = Some cs" "c \<in> set cs"
  shows "int (length c) \<le> maxLen"
proof (cases "maxLen < int (length text) \<and> int (length sep) < maxLen")
  case True
  define m where "m = nat (maxLen - int (length sep))"
  have "length (portionAt text sep m n i) \<le> m + length sep" for n i
    by (auto simp: portionAt_def min_def)
  moreover have "int (m + length sep) = maxLen" using True by (simp add: m_def)
  ultimately have "int (length (portionAt text sep m n i)) \<le> maxLen" for n i
    by (metis of_nat_le_iff)
  then show ?thesis
    using SimpleSplit_closed [of maxLen "text" sep] True assms by (auto simp: m_def)
next
  case False
  then show ?thesis using assms by (auto simp: SimpleSplit_def split: if_splits)
qed

lemma length_Sprintf_titleSuffix:
  "length (Sprintf_titleSuffix i tid) = 6 + length (Itoa i) + length tid"
  by (simp add: Sprintf_titleSuffix_def)

lemma chunksAsStr_length_bound:
  assumes room: "\<forall>p\<in>set pieces. int (length (chunkStr p)) + tlen + int (length sep) \<le> maxLen"
    and tlen: "tlen = (if bt = [] then 0 else int (length bt) + 20)"
    and uuid: "length uuid = 36"
    and small: "length (chunksAsStr uuid pieces maxLen bt) < 10000000"
    and c: "c \<in> set (chunksAsStr uuid pieces maxLen bt)"
  shows "int (length c) \<le> maxLen"
proof -
  define tid where "tid = ''<'' @ uuid @ ''>''"
  define result where "result = chunksAsStr_loop pieces maxLen bt tid [] 1"
  define total where "total = Itoa (int (length result))"
  have cs: "chunksAsStr uuid pieces maxLen bt = map (\<lambda>r. Replace1 r tid total) result"
    by (simp add: chunksAsStr_def Let_def tid_def result_def total_def)
  have N: "length result < 10000000" using small by (simp add: cs)
  have ltid: "length tid = 38" using uuid by (simp add: tid_def)
  have ltot: "length total \<le> 7" unfolding total_def using N by (rule length_Itoa)
  obtain gs where gs: "grouped maxLen bt tid gs result" "concat gs = pieces"
    using chunksAsStr_loop_groups [of maxLen bt tid pieces] unfolding result_def by blast
  obtain i where i: "i < length result" "c = Replace1 (result ! i) tid total"
    using c unfolding cs by (auto simp: in_set_conv_nth)
  note G = groupedD [OF gs(1) i(1)]
  have body: "int (length (concat (map chunkStr (gs ! i)))) + tlen + int (length sep) \<le> maxLen"
    if "gs ! i = [p]" for p
  proof -
    have "gs ! i \<in> set gs" using i(1) grouped_length [OF gs(1)] by simp
    then have "p \<in> set pieces" using that gs(2) by (metis concat_eq_appendD in_set_conv_decomp list.set_intros(1) set_concat UN_I)
    then show ?thesis using room that by simp
  qed
  show ?thesis
  proof (cases "bt = []")
    case True
    have pre: "int (length (result ! i)) \<le> maxLen"
      using G(3)
    proof
      assume "int (length (result ! i)) \<le> maxLen" then show ?thesis .
    next
      assume "\<exists>p. gs ! i = [p]"
      then obtain p where "gs ! i = [p]" by blast
      from body [OF this] show ?thesis
        unfolding G(2) using True tlen by (simp add: titleOf_def)
    qed
    have "length c \<le> length (result ! i)"
      unfolding i(2) using ltid ltot by (intro length_Replace1_le) simp
    then show ?thesis using pre by linarith
  next
    case False
    define a where "a = bt @ '' ('' @ Itoa (int (i + 1)) @ ''/''"
    define b where "b = '')\<newline>\<newline>'' @ concat (map chunkStr (gs ! i))"
    have r: "result ! i = a @ tid @ b"
      unfolding G(2) using False by (simp add: titleOf_def Sprintf_titleSuffix_def a_def b_def)
    have len: "length c + 38 = length (result ! i) + length total"
      unfolding i(2) r using length_Replace1_occurs [of a tid b total] ltid by simp
    have di: "length (Itoa (int (i + 1))) \<le> 7"
      using i(1) N by (intro length_Itoa) simp
    from G(3) show ?thesis
    proof
      assume "int (length (result ! i)) \<le> maxLen"
      then show ?thesis using len ltot by linarith
    next
      assume "\<exists>p. gs ! i = [p]"
      then obtain p where "gs ! i = [p]" by blast
      from body [OF this]
      have "int (length (concat (map chunkStr (gs ! i)))) + int (length bt) + 20 \<le> maxLen"
        using False tlen by simp
      moreover have "length (result ! i) = length bt + 3 + length (Itoa (int (i + 1)))
                       + 38 + 3 + length (concat (map chunkStr (gs ! i)))"
        unfolding r a_def b_def using ltid by simp
      ultimately show ?thesis using len ltot di by linarith
    qed
  qed
qed

section \<open>The split of a long paragraph below a heading\<close>

lemma cutContents_one: "cutContents (Suc 0) (replicate n c) = replicate n [c]"
  by (induction n) (simp_all add: cutContents_step)

lemma Walk_longDoc:
  "Walk 24 [] (longDoc n) =
     Some \<lparr>chunks = replicate n pieceX, baseTitle = ''# t'', titleLen = 23,
           canSplit = True, htmlWrappers = []\<rparr>"
  by (simp add: Walk_def longDoc_def container_def heading_def leaf_def visitor_form
      nodeSwitch_def wrappersLen_def titleSuffixFmt_def initState_def cutContents_one
      pieceX_def map_replicate)

lemma chunkStr_pieceX: "chunkStr pieceX = ''x''"
  by (simp add: chunkStr_def pieceX_def)

lemma loop_pieceX:
  assumes "bt \<noteq> []" "24 \<le> length tid"
    and "result = [] \<or> 24 \<le> length (last result)"
  shows "chunksAsStr_loop (replicate k pieceX) 24 bt tid result cur
           = result @ map (\<lambda>j. bt @ Sprintf_titleSuffix (cur + int j) tid @ ''x'') [0..<k]"
  using assms(3)
proof (induction k arbitrary: result cur)
  case 0
  show ?case by simp
next
  case (Suc k)
  let ?new = "bt @ Sprintf_titleSuffix cur tid @ ''x''"
  have no: "\<not> (length result > 0 \<and> int (length (last result)) + int (length (chunkStr pieceX)) \<le> 24)"
    using Suc.prems by (auto simp: chunkStr_pieceX)
  have step: "chunksAsStr_loop (replicate (Suc k) pieceX) 24 bt tid result cur
                = chunksAsStr_loop (replicate k pieceX) 24 bt tid (result @ [?new]) (cur + 1)"
    using no assms(1) by (auto simp: Let_def chunkStr_pieceX)
  have "24 \<le> length (last (result @ [?new]))"
    using assms(2) by (simp add: length_Sprintf_titleSuffix)
  then have IH: "chunksAsStr_loop (replicate k pieceX) 24 bt tid (result @ [?new]) (cur + 1)
                   = (result @ [?new])
                       @ map (\<lambda>j. bt @ Sprintf_titleSuffix (cur + 1 + int j) tid @ ''x'') [0..<k]"
    using Suc.IH [of "result @ [?new]" "cur + 1"] by blast
  have "map (\<lambda>j. bt @ Sprintf_titleSuffix (cur + int j) tid @ ''x'') [0..<Suc k]
          = ?new # map (\<lambda>j. bt @ Sprintf_titleSuffix (cur + 1 + int j) tid @ ''x'') [0..<k]"
    by (simp add: upt_rec [of 0 "Suc k"] map_Suc_upt [symmetric] add.assoc del: upt_Suc)
  then show ?case unfolding step IH by simp
qed

lemma MarkdownSplit_longDoc:
  assumes "19 < n"
  shows "MarkdownSplit sampleUuid (longDoc n) (longText n) 24 [] =
           Some (map (\<lambda>r. Replace1 r (''<'' @ sampleUuid @ ''>'') (Itoa (int n)))
                   (map (\<lambda>j. ''# t'' @ Sprintf_titleSuffix (1 + int j) (''<'' @ sampleUuid @ ''>'') @ ''x'')
                      [0..<n]), True)"
proof -
  have "chunksAsStr_loop (replicate n pieceX) 24 ''# t'' (''<'' @ sampleUuid @ ''>'') [] 1
          = map (\<lambda>j. ''# t'' @ Sprintf_titleSuffix (1 + int j) (''<'' @ sampleUuid @ ''>'') @ ''x'') [0..<n]"
    using loop_pieceX [of "''# t''" "''<'' @ sampleUuid @ ''>''" "[]" n 1]
    by (simp add: sampleUuid_def)
  then show ?thesis
    using assms
    by (simp add: MarkdownSplit_def Walk_longDoc longText_def chunksAsStr_def Let_def)
qed

lemma last_MarkdownSplit_longDoc:
  assumes "19 < n"
  shows "map_option (last \<circ> fst) (MarkdownSplit sampleUuid (longDoc n) (longText n) 24 [])
           = Some (Replace1 (''# t'' @ Sprintf_titleSuffix (int n) (''<'' @ sampleUuid @ ''>'') @ ''x'')
                     (''<'' @ sampleUuid @ ''>'') (Itoa (int n)))"
    and "map_option snd (MarkdownSplit sampleUuid (longDoc n) (longText n) 24 []) = Some True"
proof -
  have n: "[0..<n] \<noteq> []" "last [0..<n] = n - 1" "1 + int (n - 1) = int n"
    using assms by simp_all
  show "map_option (last \<circ> fst) (MarkdownSplit sampleUuid (longDoc n) (longText n) 24 [])
           = Some (Replace1 (''# t'' @ Sprintf_titleSuffix (int n) (''<'' @ sampleUuid @ ''>'') @ ''x'')
                     (''<'' @ sampleUuid @ ''>'') (Itoa (int n)))"
    unfolding MarkdownSplit_longDoc [OF assms] using n by (simp add: last_map)
  show "map_option snd (MarkdownSplit sampleUuid (longDoc n) (longText n) 24 []) = Some True"
    unfolding MarkdownSplit_longDoc [OF assms] by simp
qed

section \<open>The chunks of chunksAsStr after the replacement of the token\<close>

lemma chunksAsStr_structure:
  assumes "tokenUnique uuid pieces maxLen bt"
  shows "\<exists>gs. concat gs = pieces \<and> length gs = length (chunksAsStr uuid pieces maxLen bt) \<and>
           (\<forall>i<length (chunksAsStr uuid pieces maxLen bt).
              gs ! i \<noteq> [] \<and>
              chunksAsStr uuid pieces maxLen bt ! i =
                (if bt \<noteq> [] then
                   bt @ '' ('' @ Itoa (int i + 1) @ ''/''
                      @ Itoa (int (length (chunksAsStr uuid pieces maxLen bt))) @ '')\<newline>\<newline>''
                 else [])
                @ concat (map chunkStr (gs ! i)))"
proof -
  define tid where "tid = ''<'' @ uuid @ ''>''"
  define result where "result = chunksAsStr_loop pieces maxLen bt tid [] 1"
  define total where "total = Itoa (int (length result))"
  have cs: "chunksAsStr uuid pieces maxLen bt = map (\<lambda>r. Replace1 r tid total) result"
    by (simp add: chunksAsStr_def Let_def tid_def result_def total_def)
  have len: "length (chunksAsStr uuid pieces maxLen bt) = length result" by (simp add: cs)
  have tid: "tid \<noteq> []" by (simp add: tid_def)
  obtain gs where gs: "grouped maxLen bt tid gs result" "concat gs = pieces"
    using chunksAsStr_loop_groups [of maxLen bt tid pieces] unfolding result_def by blast
  have tu: "if bt = [] then list_all (\<lambda>r. \<not> Contains r tid) result
            else list_all
                   (\<lambda>i. \<not> Contains (bt @ '' ('' @ Itoa (int i) @ ''/'' @ butlast tid) tid)
                   [1..<length result + 1]"
    using assms unfolding tokenUnique_def Let_def tid_def result_def .
  have each: "gs ! i \<noteq> [] \<and>
      Replace1 (result ! i) tid total =
        (if bt \<noteq> [] then bt @ '' ('' @ Itoa (int i + 1) @ ''/'' @ total @ '')\<newline>\<newline>'' else [])
        @ concat (map chunkStr (gs ! i))"
    if i: "i < length result" for i
  proof -
    note G = groupedD [OF gs(1) i]
    show ?thesis
    proof (cases "bt = []")
      case True
      have "\<not> Contains (result ! i) tid"
        using tu i True by (simp add: list_all_length)
      then have "Replace1 (result ! i) tid total = result ! i" by (rule Replace1_absent)
      then show ?thesis using G(1,2) True by (simp add: titleOf_def)
    next
      case False
      have mem: "Suc i \<in> set [1..<length result + 1]" using i by auto
      have "list_all
              (\<lambda>i. \<not> Contains (bt @ '' ('' @ Itoa (int i) @ ''/'' @ butlast tid) tid)
              [1..<length result + 1]"
        using tu False by (simp only: if_False)
      then have "\<forall>j\<in>set [1..<length result + 1].
                   \<not> Contains (bt @ '' ('' @ Itoa (int j) @ ''/'' @ butlast tid) tid"
        unfolding list_all_iff .
      from bspec [OF this mem]
      have fresh: "\<not> Contains ((bt @ '' ('' @ Itoa (int (Suc i)) @ ''/'') @ butlast tid) tid"
        by simp
      have r: "result ! i = (bt @ '' ('' @ Itoa (int (Suc i)) @ ''/'') @ tid
                 @ ('')\<newline>\<newline>'' @ concat (map chunkStr (gs ! i)))"
        unfolding G(2) using False by (simp add: titleOf_def Sprintf_titleSuffix_def)
      have "Replace1 (result ! i) tid total
              = (bt @ '' ('' @ Itoa (int (Suc i)) @ ''/'') @ total
                 @ ('')\<newline>\<newline>'' @ concat (map chunkStr (gs ! i)))"
        unfolding r by (rule Replace1_first [OF tid fresh])
      then show ?thesis using G(1) False by (simp add: add.commute)
    qed
  qed
  show ?thesis
  proof (intro exI [of _ gs] conjI allI impI)
    show "concat gs = pieces" by (rule gs(2))
    show "length gs = length (chunksAsStr uuid pieces maxLen bt)"
      using grouped_length [OF gs(1)] len by simp
  next
    fix i assume "i < length (chunksAsStr uuid pieces maxLen bt)"
    then have i: "i < length result" using len by simp
    show "gs ! i \<noteq> []" using each [OF i] by blast
    show "chunksAsStr uuid pieces maxLen bt ! i =
                (if bt \<noteq> [] then
                   bt @ '' ('' @ Itoa (int i + 1) @ ''/''
                      @ Itoa (int (length (chunksAsStr uuid pieces maxLen bt))) @ '')\<newline>\<newline>''
                 else [])
                @ concat (map chunkStr (gs ! i))"
      using each [OF i] i unfolding len total_def [symmetric] by (simp add: cs)
  qed
qed

lemma chunkStr_markers:
  assumes "w \<in> set (wrappers p)"
  shows "\<exists>a b c d. chunkStr p = a @ beginStr w @ b @ content p @ c @ endStr w @ d"
proof -
  obtain w1 w2 where ws: "wrappers p = w1 @ w # w2" using assms by (meson split_list)
  have "chunkStr p = concat (rev (map beginStr w2)) @ beginStr w @ concat (rev (map beginStr w1))
                       @ content p @ concat (map endStr w1) @ endStr w @ concat (map endStr w2)"
    by (simp add: chunkStr_nested ws)
  then show ?thesis by blast
qed

lemma concat_map_member:
  assumes "p \<in> set g"
  shows "\<exists>X Y. concat (map f g) = X @ f p @ Y"
proof -
  obtain g1 g2 where "g = g1 @ p # g2" using assms by (meson split_list)
  then have "concat (map f g) = concat (map f g1) @ f p @ concat (map f g2)" by simp
  then show ?thesis by blast
qed

lemma MarkdownSplit_success:
  assumes "maxLen < int (length text)" "MarkdownSplit uuid rootNode text maxLen sep = Some (cs, True)"
    "Walk maxLen sep rootNode = Some st"
  shows "cs = chunksAsStr uuid (chunks st) maxLen (baseTitle st)"
  using assms by (auto simp: MarkdownSplit_def split: if_splits option.splits)

section \<open>The base title of a document that begins with a heading\<close>

lemma runVisits_skip:
  assumes "\<forall>(a, n)\<in>set xs. nodeType n \<noteq> List \<and> literal n = None"
  shows "runVisits maxLen sep (xs @ ys) st = runVisits maxLen sep ys st"
  using assms
proof (induction xs)
  case Nil
  show ?case by simp
next
  case (Cons x xs)
  obtain a n where x: "x = (a, n)" by (cases x)
  have "visitor maxLen sep a n st = Some (GoToNext, st)"
    using Cons.prems x by (simp add: visitor_form)
  then show ?case using Cons x by simp
qed

lemma parentLoop_capture:
  assumes "baseTitle st = []" "chunks st = []"
    and "find (\<lambda>h. nodeType h = Heading) anc = Some h"
  shows "parentLoop st contents anc ws =
           Inl (st\<lparr>baseTitle := replicate (level h) CHR ''#'' @ '' '' @ contents,
                    titleLen := int (length (replicate (level h) CHR ''#'' @ '' '' @ contents)) + 20\<rparr>)"
  using assms(3)
proof (induction anc arbitrary: ws)
  case Nil
  then show ?case by simp
next
  case (Cons parent up)
  show ?case
  proof (cases "nodeType parent = Heading")
    case True
    then have "h = parent" using Cons.prems by simp
    then show ?thesis using True assms(1,2) by (simp add: Let_def titleSuffixFmt_def)
  next
    case False
    then have f: "find (\<lambda>h. nodeType h = Heading) up = Some h" using Cons.prems by simp
    show ?thesis
      using False Cons.IH [OF f] by (cases "nodeType parent") (simp_all add: Let_def)
  qed
qed

lemma visitor_baseTitle:
  assumes "baseTitle st \<noteq> []" "visitor maxLen sep anc node st = Some (s, st')"
  shows "baseTitle st' = baseTitle st"
  using assms unfolding visitor_form
  by (auto split: if_splits option.splits sum.splits prod.splits dest!: parentLoop_Inl)

lemma runVisits_baseTitle:
  assumes "baseTitle st = base" "base \<noteq> []" "runVisits maxLen sep xs st = Some st'"
  shows "baseTitle st' = base"
  using runVisits_invariant [of "\<lambda>s. baseTitle s = base" maxLen sep st xs st']
    visitor_baseTitle assms by metis

lemma leadingHeading_baseTitle:
  assumes "leadingHeading rootNode = Some base" "Walk maxLen sep rootNode = Some st"
  shows "baseTitle st = base \<and> base \<noteq> []"
proof -
  let ?P = "\<lambda>(anc, node). nodeType node = List \<or> literal node \<noteq> None"
  obtain anc node where f: "find ?P (walkOrder [] rootNode) = Some (anc, node)"
    using assms(1) by (auto simp: leadingHeading_def split: option.splits)
  then obtain contents h where n: "nodeType node \<noteq> List" "literal node = Some contents"
      "find (\<lambda>h. nodeType h = Heading) anc = Some h"
      "base = replicate (level h) CHR ''#'' @ '' '' @ contents"
    using assms(1) by (auto simp: leadingHeading_def split: option.splits if_splits)
  from f obtain i where i: "i < length (walkOrder [] rootNode)"
      "walkOrder [] rootNode ! i = (anc, node)"
      "\<forall>j<i. \<not> ?P (walkOrder [] rootNode ! j)"
    unfolding find_Some_iff by auto
  define xs where "xs = take i (walkOrder [] rootNode)"
  define ys where "ys = drop (Suc i) (walkOrder [] rootNode)"
  have split: "walkOrder [] rootNode = xs @ (anc, node) # ys"
    unfolding xs_def ys_def using id_take_nth_drop [OF i(1)] i(2) by simp
  have skip: "\<forall>(a, n)\<in>set xs. nodeType n \<noteq> List \<and> literal n = None"
  proof
    fix x assume "x \<in> set xs"
    then obtain j where "j < i" "x = walkOrder [] rootNode ! j"
      using i(1) unfolding xs_def by (auto simp: in_set_conv_nth)
    then show "case x of (a, n) \<Rightarrow> nodeType n \<noteq> List \<and> literal n = None"
      using i(3) by (cases x) auto
  qed
  have base: "base \<noteq> []" using n(4) by simp
  define st1 where "st1 = initState\<lparr>baseTitle := base,
      titleLen := int (length base) + 20\<rparr>"
  have "parentLoop initState contents anc [] = Inl st1"
    unfolding st1_def n(4)
    by (rule parentLoop_capture [OF _ _ n(3)]) (simp_all add: initState_def)
  then have v: "visitor maxLen sep anc node initState = Some (GoToNext, st1)"
    using n(1,2) by (simp add: visitor_form)
  have "runVisits maxLen sep ys st1 = Some st"
    using assms(2) unfolding Walk_def split runVisits_skip [OF skip] by (simp add: v)
  moreover have "baseTitle st1 = base" by (simp add: st1_def)
  ultimately have "baseTitle st = base" using runVisits_baseTitle [OF _ base] by blast
  then show ?thesis using base by simp
qed

section \<open>The visitor and the wrappers of the specification\<close>

lemma Index_newline:
  "Index t ''\<newline>'' =
     (if CHR ''\<newline>'' \<in> set t then int (length (takeWhile (\<lambda>c. c \<noteq> CHR ''\<newline>'') t)) else - 1)"
  by (induction t) (auto simp: HasPrefix_def Let_def)

lemma take_takeWhile_Suc:
  "x \<in> set t \<Longrightarrow> take (Suc (length (takeWhile (\<lambda>c. c \<noteq> x) t))) t = takeWhile (\<lambda>c. c \<noteq> x) t @ [x]"
  by (induction t) auto

lemma getHTMLClosingTag_spec: "getHTMLClosingTag t = spec_closingTag t"
  unfolding getHTMLClosingTag_def by (induction t) (auto simp: HasPrefix_def)

lemma HasPrefix_closing: "HasPrefix t ''</'' = (take 2 t = ''</'')"
  by (simp add: HasPrefix_def numeral_2_eq_2)

lemma nodeSwitch_spec:
  assumes "nodeSwitch node t ws html = (c', ws', html')"
  shows "html' = spec_htmlStack html node t"
    and "ws' = ws @ spec_codeFence node t"
    and "spec_tagConsumed html node t \<Longrightarrow> c' = []"
proof -
  consider (code) "nodeType node = Code" | (span) "nodeType node = HTMLSpan"
    | (other) "nodeType node \<noteq> Code" "nodeType node \<noteq> HTMLSpan" by blast
  then have "html' = spec_htmlStack html node t \<and> ws' = ws @ spec_codeFence node t
               \<and> (spec_tagConsumed html node t \<longrightarrow> c' = [])"
  proof cases
    case code
    have "take (nat (Index t ''\<newline>'' + 1)) t = takeWhile (\<lambda>c. c \<noteq> CHR ''\<newline>'') t @ ''\<newline>''"
      if "CHR ''\<newline>'' \<in> set t"
      using take_takeWhile_Suc [OF that] that by (simp add: Index_newline nat_add_distrib)
    then show ?thesis
      using assms code
      by (auto simp: nodeSwitch_def Let_def spec_htmlStack_def spec_codeFence_def
          spec_tagConsumed_def Index_newline)
  next
    case span
    then show ?thesis
      using assms
      by (auto simp: nodeSwitch_def spec_htmlStack_def spec_codeFence_def spec_tagConsumed_def
          isHTMLOpeningTag_def HasPrefix_closing getHTMLClosingTag_spec split: if_splits)
  next
    case other
    then show ?thesis
      using assms
      by (cases "nodeType node")
        (auto simp: nodeSwitch_def spec_htmlStack_def spec_codeFence_def spec_tagConsumed_def)
  qed
  then show "html' = spec_htmlStack html node t" "ws' = ws @ spec_codeFence node t"
    "spec_tagConsumed html node t \<Longrightarrow> c' = []" by blast+
qed

lemma parentLoop_spec:
  assumes "\<not> spec_titleCaptured s anc"
  shows "parentLoop s t anc ws = Inr (ws @ spec_ancestorWrappers anc)"
  using assms
proof (induction anc arbitrary: ws)
  case Nil
  show ?case by (simp add: spec_ancestorWrappers_def map_filter_simps)
next
  case (Cons parent up)
  have up: "\<not> spec_titleCaptured s up"
    using Cons.prems by (auto simp: spec_titleCaptured_def)
  have hd: "nodeType parent = Heading \<Longrightarrow> \<not> (baseTitle s = [] \<and> chunks s = [])"
    using Cons.prems by (auto simp: spec_titleCaptured_def)
  show ?case
    using Cons.IH [OF up] hd
    by (cases "nodeType parent")
      (simp_all add: spec_ancestorWrappers_def map_filter_simps spec_decoration_def Let_def)
qed

lemma parentLoop_captured:
  assumes "spec_titleCaptured s anc"
  shows "\<exists>x. parentLoop s t anc ws = Inl x"
proof -
  have "find (\<lambda>h. nodeType h = Heading) anc \<noteq> None"
    using assms by (auto simp: spec_titleCaptured_def find_None_iff list_ex_iff)
  then obtain h where "find (\<lambda>h. nodeType h = Heading) anc = Some h" by blast
  then show ?thesis
    using parentLoop_capture [of s anc h t ws] assms by (auto simp: spec_titleCaptured_def)
qed

lemma visitor_spec:
  assumes "visitor maxLen sep anc node s = Some (GoToNext, s')"
  shows "spec_visit s anc node s'"
proof -
  have notList: "nodeType node \<noteq> List" using assms by (auto simp: visitor_form)
  show ?thesis
  proof (cases "literal node")
    case None
    then show ?thesis using assms notList by (simp add: visitor_form spec_visit_def)
  next
    case (Some t)
    show ?thesis
    proof (cases "spec_titleCaptured s anc")
      case True
      then obtain x where x: "parentLoop s t anc [] = Inl x" using parentLoop_captured by blast
      then have "s' = x" using assms notList Some by (simp add: visitor_form)
      then have "chunks s' = chunks s \<and> htmlWrappers s' = htmlWrappers s"
        using parentLoop_Inl [OF x] by auto
      then show ?thesis using Some True by (simp add: spec_visit_def)
    next
      case False
      have pl: "parentLoop s t anc [] = Inr (spec_ancestorWrappers anc)"
        using parentLoop_spec [OF False, of t "[]"] by simp
      obtain c' ws' html' where sw:
        "nodeSwitch node t (spec_ancestorWrappers anc) (htmlWrappers s) = (c', ws', html')"
        by (cases "nodeSwitch node t (spec_ancestorWrappers anc) (htmlWrappers s)") auto
      note S = nodeSwitch_spec [OF sw]
      define n where "n = nat (maxLen - (wrappersLen (ws' @ html') + titleLen s + int (length sep)))"
      have s': "s' = s\<lparr>htmlWrappers := html',
                  chunks := chunks s @ map (\<lambda>c. \<lparr>content = c, wrappers = ws' @ html'\<rparr>)
                              (cutContents n c')\<rparr>"
        using assms notList Some pl sw by (auto simp: visitor_form n_def split: if_splits)
      have "spec_tagConsumed (htmlWrappers s) node t \<longrightarrow> length (chunks s') = length (chunks s)"
        using S(3) by (auto simp: s')
      moreover have "list_all
                 (\<lambda>p. wrappers p = spec_ancestorWrappers anc @ spec_codeFence node t
                                     @ spec_htmlStack (htmlWrappers s) node t)
                 (drop (length (chunks s)) (chunks s'))"
        using S(1,2) by (simp add: s' list_all_iff)
      moreover have "htmlWrappers s' = spec_htmlStack (htmlWrappers s) node t"
        using S(1) by (simp add: s')
      moreover have "take (length (chunks s)) (chunks s') = chunks s" by (simp add: s')
      ultimately show ?thesis using Some False by (simp add: spec_visit_def)
    qed
  qed
qed

lemma visitor_chunks_append:
  assumes "visitor maxLen sep anc node s = Some (status, s')"
  shows "\<exists>new. chunks s' = chunks s @ new"
  using assms unfolding visitor_form
  by (auto split: if_splits option.splits sum.splits prod.splits dest!: parentLoop_Inl)

lemma runVisits_chunks_prefix:
  assumes "runVisits maxLen sep xs s = Some st"
  shows "take (length (chunks s)) (chunks st) = chunks s"
proof -
  have step: "take (length (chunks s)) (chunks y) = chunks s"
    if px: "take (length (chunks s)) (chunks x) = chunks s"
      and vx: "visitor maxLen sep anc node x = Some (status, y)" for anc node x status y
  proof -
    obtain new where new: "chunks y = chunks x @ new"
      using visitor_chunks_append [OF vx] by blast
    have "length (chunks s) \<le> length (chunks x)"
      using px by (metis length_take min.cobounded1)
    then show ?thesis using px by (simp add: new)
  qed
  show ?thesis
    using runVisits_invariant
      [of "\<lambda>x. take (length (chunks s)) (chunks x) = chunks s" maxLen sep s xs st]
      step assms by auto
qed

lemma walk_step:
  assumes "Walk maxLen sep rootNode = Some st" "canSplit st"
    and "walkOrder [] rootNode = before @ (anc, node) # after"
    and "runVisits maxLen sep before initState = Some s"
  shows "\<exists>s'. visitor maxLen sep anc node s = Some (GoToNext, s')
              \<and> runVisits maxLen sep (before @ [(anc, node)]) initState = Some s'
              \<and> runVisits maxLen sep after s' = Some st"
proof -
  have w: "runVisits maxLen sep (before @ (anc, node) # after) initState = Some st"
    using assms(1,3) by (simp add: Walk_def)
  have cs: "canSplit s"
    using w assms(2,4) by (auto simp: runVisits_append split: if_splits)
  then have rest: "runVisits maxLen sep ((anc, node) # after) s = Some st"
    using w assms(4) by (simp add: runVisits_append)
  obtain status s' where v: "visitor maxLen sep anc node s = Some (status, s')"
    using visitor_Some by blast
  have go: "status = GoToNext"
    using visitor_canSplit [OF v cs] rest assms(2) by (auto simp: v)
  have "runVisits maxLen sep after s' = Some st" using rest by (simp add: v go)
  moreover have "runVisits maxLen sep (before @ [(anc, node)]) initState = Some s'"
    using assms(4) cs by (simp add: runVisits_append v go)
  ultimately show ?thesis using v go by blast
qed

lemma MarkdownSplit_success_canSplit:
  assumes "maxLen < int (length text)" "MarkdownSplit uuid rootNode text maxLen sep = Some (cs, True)"
    "Walk maxLen sep rootNode = Some st"
  shows "canSplit st"
  using assms by (auto simp: MarkdownSplit_def split: if_splits option.splits)

text \<open>
  Where the bound on the length of the chunks holds: without success always, and with
  success when fewer than 10000000 chunks are returned, for a token of 36 bytes.
\<close>

lemma chunk_length_bound_below_10000000:
  assumes "length uuid = 36"
    and "MarkdownSplit uuid rootNode text maxLen sep = Some (cs, ok)"
    and "ok \<longrightarrow> length cs < 10000000"
  shows "\<forall>c\<in>set cs. int (length c) \<le> maxLen"
proof (cases "int (length text) \<le> maxLen \<or> maxLen \<le> int (length sep)")
  case True
  then show ?thesis using assms(2) by (auto simp: MarkdownSplit_def split: if_splits)
next
  case False
  obtain st where st: "Walk maxLen sep rootNode = Some st" using Walk_Some by blast
  show ?thesis
  proof (cases "canSplit st")
    case True
    then have cs: "cs = chunksAsStr uuid (chunks st) maxLen (baseTitle st)" and ok: ok
      using assms(2) False st by (auto simp: MarkdownSplit_def)
    have inv: "walkInv maxLen sep st" using Walk_walkInv [OF st] .
    show ?thesis
    proof
      fix c assume "c \<in> set cs"
      then show "int (length c) \<le> maxLen"
        using chunksAsStr_length_bound [of "chunks st" "titleLen st" sep maxLen "baseTitle st" uuid c]
          inv assms(1,3) ok unfolding cs walkInv_def by blast
    qed
  next
    case no: False
    then have "SimpleSplit text maxLen sep = Some cs"
      using assms(2) False st by (auto simp: MarkdownSplit_def split: option.splits)
    then show ?thesis using SimpleSplit_length_bound by blast
  qed
qed




section \<open>The claims on SimpleSplit\<close>

text \<open>
  C9. For a text longer than the maximum and a maximum above the length of the separator,
  SimpleSplit returns the \<open>ceil(len(text) / (max - len(sep)))\<close> consecutive substrings of
  the text, in order, each of at most \<open>max - len(sep)\<close> bytes, with the separator appended to
  every chunk but the last; and \<open>SimpleSplit("Some basic comment", 10, "")\<close> is
  \<open>["Some basic", " comment"]\<close>.
\<close>

theorem SimpleSplit_consecutive_chunks:
  assumes "maxLen < int (length text)" "int (length sep) < maxLen"
  shows "(let m = nat (maxLen - int (length sep));
              n = nat \<lceil>real (length text) / real m\<rceil>
          in SimpleSplit text maxLen sep =
               Some (map (\<lambda>i. take m (drop (i * m) text) @ (if i < n - 1 then sep else []))
                      [0..<n])
             \<and> (\<forall>i<n. length (take m (drop (i * m) text)) \<le> m))
         \<and> SimpleSplit ''Some basic comment'' 10 [] = Some [''Some basic'', '' comment'']"
proof -
  have m: "real (nat (maxLen - int (length sep))) = real_of_int (maxLen - int (length sep))"
    using assms by simp
  have n: "\<lceil>real (length text) / real (nat (maxLen - int (length sep)))\<rceil>
             = numChunksOf (int (length text)) (maxLen - int (length sep))"
    unfolding m numChunksOf_def by simp
  have general: "SimpleSplit text maxLen sep =
      Some (map (\<lambda>i. take (nat (maxLen - int (length sep)))
                        (drop (i * nat (maxLen - int (length sep))) text)
                     @ (if i < nat (numChunksOf (int (length text)) (maxLen - int (length sep))) - 1
                        then sep else []))
             [0..<nat (numChunksOf (int (length text)) (maxLen - int (length sep)))])"
    using SimpleSplit_closed [OF assms] by (simp add: portionAt_def [abs_def])
  have example: "SimpleSplit ''Some basic comment'' 10 [] = Some [''Some basic'', '' comment'']"
    using SimpleSplit_closed [of 10 "''Some basic comment''" "[]"]
    by (simp add: numChunksOf_div portionAt_def upt_rec)
  show ?thesis
    unfolding Let_def n using general example by simp
qed

theorem SimpleSplit_consecutive_chunks_witness:
  "5 < int (length ''Hello, world'') \<and> int (length ''-'') < 5
   \<and> SimpleSplit ''Hello, world'' 5 ''-'' = Some [''Hell-'', ''o, w-'', ''orld'']"
  using SimpleSplit_consecutive_chunks [of 5 "''Hello, world''" "''-''"]
  by (simp add: upt_rec)


text \<open>
  C10. For a text longer than the maximum and a maximum above the length of the separator,
  every chunk of SimpleSplit but the last has exactly the maximum length and ends with the
  separator, and the chunks, the separator stripped from all but the last, concatenate to
  the text.
\<close>

theorem SimpleSplit_lossless:
  assumes "maxLen < int (length text)" "int (length sep) < maxLen"
  shows "\<exists>cs. SimpleSplit text maxLen sep = Some cs \<and> cs \<noteq> []
           \<and> (\<forall>c\<in>set (butlast cs). int (length c) = maxLen
                  \<and> drop (length c - length sep) c = sep)
           \<and> concat (map (\<lambda>c. take (length c - length sep) c) (butlast cs)) @ last cs = text"
proof -
  define m where "m = nat (maxLen - int (length sep))"
  define n where "n = nat (numChunksOf (int (length text)) (int m))"
  have m: "0 < m" and im: "maxLen - int (length sep) = int m"
    using assms by (simp_all add: m_def)
  have len: "0 < int (length text)" using assms by linarith
  note B = numChunksOf_bounds [of "int m" "int (length text)", OF _ len]
  have n: "numChunksOf (int (length text)) (int m) = int n" and n0: "0 < n"
    using B(1) m by (simp_all add: n_def)
  have "(int n - 1) * int m < int (length text)" using B(2) m by (simp add: n)
  then have "int ((n - 1) * m) < int (length text)" using n0 by simp
  then have lo: "(n - 1) * m < length text" by linarith
  have "int (length text) \<le> int (n * m)" using B(3) m by (simp add: n)
  then have hi: "length text \<le> n * m" by linarith
  have eq: "SimpleSplit text maxLen sep = Some (map (portionAt text sep m n) [0..<n])"
    using SimpleSplit_closed [OF assms] unfolding im n by simp
  note L = portions_lossless [OF n0 lo hi, of sep]
  have "\<forall>c\<in>set (butlast (map (portionAt text sep m n) [0..<n])).
          int (length c) = maxLen \<and> drop (length c - length sep) c = sep"
    using L(2) im by auto
  then show ?thesis using eq L(1) L(3) by blast
qed

theorem SimpleSplit_lossless_witness:
  "5 < int (length ''Hello, world'') \<and> int (length ''-'') < 5
   \<and> (\<exists>cs. SimpleSplit ''Hello, world'' 5 ''-'' = Some cs
         \<and> concat (map (\<lambda>c. take (length c - length ''-'') c) (butlast cs)) @ last cs
             = ''Hello, world'')"
  using SimpleSplit_lossless [of 5 "''Hello, world''" "''-''"]
  by auto

section \<open>The claims on MarkdownSplit\<close>

text \<open>
  C1. Every chunk that MarkdownSplit returns should have at most \<open>max\<close> bytes, with success
  and without; SimpleSplit keeps the bound, and the test of the repository asserts it of
  every chunk. With success the bound is broken: MarkdownSplit reserves for the title the
  length of the base title plus 20 bytes, of which the title takes 6 and the two numbers
  the rest, and from chunk 1000000 of 10000000 on the numbers take 15 bytes and more. The
  text \<open># t\<close>, an empty line and 10000000 bytes \<open>x\<close>, split at 24 bytes, gives 10000000
  chunks with success, the last of 26 bytes.
\<close>

theorem chunk_length_exceeded:
  "map_option (last \<circ> fst)
     (MarkdownSplit sampleUuid (longDoc 10000000) (longText 10000000) 24 [])
     = Some ''# t (10000000/10000000)\<newline>\<newline>x''
   \<and> map_option snd
     (MarkdownSplit sampleUuid (longDoc 10000000) (longText 10000000) 24 []) = Some True
   \<and> 24 < int (length ''# t (10000000/10000000)\<newline>\<newline>x'')"
proof -
  have itoa: "Itoa 10000000 = ''10000000''"
    by (simp add: Itoa_def digitsOf.simps digitChar_def)
  have rep: "Replace1 (''# t'' @ Sprintf_titleSuffix 10000000 (''<'' @ sampleUuid @ ''>'') @ ''x'')
               (''<'' @ sampleUuid @ ''>'') ''10000000'' = ''# t (10000000/10000000)\<newline>\<newline>x''"
    unfolding Sprintf_titleSuffix_def itoa by code_simp
  have big: "19 < (10000000::nat)" by simp
  have i: "int 10000000 = 10000000" by simp
  note L = last_MarkdownSplit_longDoc [OF big]
  have 1: "map_option (last \<circ> fst)
     (MarkdownSplit sampleUuid (longDoc 10000000) (longText 10000000) 24 [])
     = Some ''# t (10000000/10000000)\<newline>\<newline>x''"
    unfolding L(1) i itoa rep ..
  have 3: "24 < int (length ''# t (10000000/10000000)\<newline>\<newline>x'')" by simp
  show ?thesis using 1 L(2) 3 by blast
qed

text \<open>
  C2. A document that is longer than the maximum and begins with a heading (the first node
  of the walk with a literal lies below a heading, whose level and the literal give the base
  title) and that MarkdownSplit splits with success into \<open>N\<close> chunks: chunk \<open>i\<close>, counted
  from 1, begins with the base title followed by \<open>" (i/N)"\<close> and an empty line, \<open>N\<close> written
  in decimal in place of the unique token.
\<close>

theorem pagination_titles:
  assumes "maxLen < int (length text)"
    and "leadingHeading rootNode = Some base"
    and "MarkdownSplit uuid rootNode text maxLen sep = Some (cs, True)"
    and "Walk maxLen sep rootNode = Some st"
    and "tokenUnique uuid (chunks st) maxLen base"
  shows "\<forall>i<length cs. \<exists>rest.
           cs ! i = base @ '' ('' @ Itoa (int i + 1) @ ''/'' @ Itoa (int (length cs))
                      @ '')\<newline>\<newline>'' @ rest"
proof -
  have bt: "baseTitle st = base" "base \<noteq> []"
    using leadingHeading_baseTitle [OF assms(2,4)] by simp_all
  have cs: "cs = chunksAsStr uuid (chunks st) maxLen base"
    using MarkdownSplit_success [OF assms(1,3,4)] bt by simp
  from chunksAsStr_structure [OF assms(5)] obtain gs where
    "\<And>i. i < length cs \<Longrightarrow>
       cs ! i = (if base \<noteq> [] then
                   base @ '' ('' @ Itoa (int i + 1) @ ''/'' @ Itoa (int (length cs)) @ '')\<newline>\<newline>''
                 else [])
                @ concat (map chunkStr (gs ! i))"
    unfolding cs [symmetric] by blast
  then show ?thesis using bt(2) by auto
qed

theorem pagination_titles_witness:
  "55 < int (length titledText)
   \<and> leadingHeading titledDoc = Some ''### Comment with title''
   \<and> MarkdownSplit sampleUuid titledDoc titledText 55 []
       = Some ([''### Comment with title (1/3)\<newline>\<newline>Includes the '',
                ''### Comment with title (2/3)\<newline>\<newline>title in ever'',
                ''### Comment with title (3/3)\<newline>\<newline>y split.''], True)
   \<and> Walk 55 [] titledDoc = Some titledState
   \<and> tokenUnique sampleUuid (chunks titledState) 55 ''### Comment with title''
   \<and> (\<exists>rest. ''### Comment with title (1/3)\<newline>\<newline>Includes the ''
          = ''### Comment with title'' @ '' ('' @ Itoa 1 @ ''/'' @ Itoa 3 @ '')\<newline>\<newline>'' @ rest)
   \<and> (\<exists>rest. ''### Comment with title (2/3)\<newline>\<newline>title in ever''
          = ''### Comment with title'' @ '' ('' @ Itoa 2 @ ''/'' @ Itoa 3 @ '')\<newline>\<newline>'' @ rest)
   \<and> (\<exists>rest. ''### Comment with title (3/3)\<newline>\<newline>y split.''
          = ''### Comment with title'' @ '' ('' @ Itoa 3 @ ''/'' @ Itoa 3 @ '')\<newline>\<newline>'' @ rest)"
proof -
  have h1: "55 < int (length titledText)" by code_simp
  have h2: "leadingHeading titledDoc = Some ''### Comment with title''" by code_simp
  have h3: "MarkdownSplit sampleUuid titledDoc titledText 55 []
       = Some ([''### Comment with title (1/3)\<newline>\<newline>Includes the '',
                ''### Comment with title (2/3)\<newline>\<newline>title in ever'',
                ''### Comment with title (3/3)\<newline>\<newline>y split.''], True)"
    by code_simp
  have h4: "Walk 55 [] titledDoc = Some titledState" by code_simp
  have h5: "tokenUnique sampleUuid (chunks titledState) 55 ''### Comment with title''"
    by code_simp
  note T = pagination_titles [OF h1 h2 h3 h4 h5, rule_format]
  have t0: "\<exists>rest. ''### Comment with title (1/3)\<newline>\<newline>Includes the ''
          = ''### Comment with title'' @ '' ('' @ Itoa 1 @ ''/'' @ Itoa 3 @ '')\<newline>\<newline>'' @ rest"
    using T [of 0] by simp
  have t1: "\<exists>rest. ''### Comment with title (2/3)\<newline>\<newline>title in ever''
          = ''### Comment with title'' @ '' ('' @ Itoa 2 @ ''/'' @ Itoa 3 @ '')\<newline>\<newline>'' @ rest"
    using T [of 1] by simp
  have t2: "\<exists>rest. ''### Comment with title (3/3)\<newline>\<newline>y split.''
          = ''### Comment with title'' @ '' ('' @ Itoa 3 @ ''/'' @ Itoa 3 @ '')\<newline>\<newline>'' @ rest"
    using T [of 2] by simp
  show ?thesis using h1 h2 h3 h4 h5 t0 t1 t2 by blast
qed

text \<open>
  C3. When MarkdownSplit splits a text longer than the maximum with success: at every node
  of the walk the visitor does what the specification says of the wrappers (an emphasis,
  strong, strikethrough, heading or link ancestor gives its wrapper, an opening raw-HTML tag
  is pushed with its close text \<open></...\<close> and wraps the text that follows until the tag
  is closed, a code node gets its fences), and the pieces it adds stay in the state to the
  end. The pieces fall, in order, into one group for each chunk: a chunk is its title
  followed by the rendered pieces of its group, so every wrapper of every piece has its
  opening marker before the content of the piece and its closing marker after it within
  that chunk. (A text that fits the maximum is returned as it is; no wrapper is applied to
  it.) The token is unique.
\<close>

theorem wrappers_balanced:
  assumes "maxLen < int (length text)"
    and "MarkdownSplit uuid rootNode text maxLen sep = Some (cs, True)"
    and "Walk maxLen sep rootNode = Some st"
    and "tokenUnique uuid (chunks st) maxLen (baseTitle st)"
  shows "(\<forall>before anc node after s.
            walkOrder [] rootNode = before @ (anc, node) # after \<longrightarrow>
            runVisits maxLen sep before initState = Some s \<longrightarrow>
            (\<exists>s'. runVisits maxLen sep (before @ [(anc, node)]) initState = Some s'
                  \<and> spec_visit s anc node s'
                  \<and> take (length (chunks s')) (chunks st) = chunks s'))
         \<and> (\<exists>gs. concat gs = chunks st \<and> length gs = length cs \<and>
           (\<forall>i<length cs.
              gs ! i \<noteq> [] \<and>
              (\<exists>title. cs ! i = title @ concat (map chunkStr (gs ! i))) \<and>
              (\<forall>p\<in>set (gs ! i). \<forall>w\<in>set (wrappers p).
                 \<exists>a b c d. cs ! i = a @ beginStr w @ b @ content p @ c @ endStr w @ d)))"
proof (rule conjI)
  have can: "canSplit st" by (rule MarkdownSplit_success_canSplit [OF assms(1,2,3)])
  show "\<forall>before anc node after s.
            walkOrder [] rootNode = before @ (anc, node) # after \<longrightarrow>
            runVisits maxLen sep before initState = Some s \<longrightarrow>
            (\<exists>s'. runVisits maxLen sep (before @ [(anc, node)]) initState = Some s'
                  \<and> spec_visit s anc node s'
                  \<and> take (length (chunks s')) (chunks st) = chunks s')"
  proof (intro allI impI)
    fix before anc node after s
    assume w: "walkOrder [] rootNode = before @ (anc, node) # after"
      and r: "runVisits maxLen sep before initState = Some s"
    from walk_step [OF assms(3) can w r] obtain s' where
      s': "visitor maxLen sep anc node s = Some (GoToNext, s')"
        "runVisits maxLen sep (before @ [(anc, node)]) initState = Some s'"
        "runVisits maxLen sep after s' = Some st"
      by blast
    show "\<exists>s'. runVisits maxLen sep (before @ [(anc, node)]) initState = Some s'
                  \<and> spec_visit s anc node s'
                  \<and> take (length (chunks s')) (chunks st) = chunks s'"
      using s'(2) visitor_spec [OF s'(1)] runVisits_chunks_prefix [OF s'(3)] by blast
  qed
next
  have cs: "cs = chunksAsStr uuid (chunks st) maxLen (baseTitle st)"
    by (rule MarkdownSplit_success [OF assms(1,2,3)])
  from chunksAsStr_structure [OF assms(4)] obtain gs where
    gs: "concat gs = chunks st" "length gs = length cs"
      "\<And>i. i < length cs \<Longrightarrow> gs ! i \<noteq> [] \<and>
         (\<exists>title. cs ! i = title @ concat (map chunkStr (gs ! i)))"
    unfolding cs [symmetric] by blast
  have marks: "\<exists>a b c d. cs ! i = a @ beginStr w @ b @ content p @ c @ endStr w @ d"
    if i: "i < length cs" and p: "p \<in> set (gs ! i)" and w: "w \<in> set (wrappers p)" for i p w
  proof -
    obtain title where t: "cs ! i = title @ concat (map chunkStr (gs ! i))"
      using gs(3) [OF i] by blast
    obtain X Y where xy: "concat (map chunkStr (gs ! i)) = X @ chunkStr p @ Y"
      using concat_map_member [OF p] by blast
    obtain a b c d where "chunkStr p = a @ beginStr w @ b @ content p @ c @ endStr w @ d"
      using chunkStr_markers [OF w] by blast
    then have "cs ! i = (title @ X @ a) @ beginStr w @ b @ content p @ c @ endStr w @ (d @ Y)"
      unfolding t xy by simp
    then show ?thesis by blast
  qed
  show "\<exists>gs. concat gs = chunks st \<and> length gs = length cs \<and>
           (\<forall>i<length cs.
              gs ! i \<noteq> [] \<and>
              (\<exists>title. cs ! i = title @ concat (map chunkStr (gs ! i))) \<and>
              (\<forall>p\<in>set (gs ! i). \<forall>w\<in>set (wrappers p).
                 \<exists>a b c d. cs ! i = a @ beginStr w @ b @ content p @ c @ endStr w @ d))"
    using gs marks by (intro exI [of _ gs]) blast
qed

theorem wrappers_balanced_witness:
  "5 < int (length ''*abcdef*'')
   \<and> MarkdownSplit sampleUuid emphDoc ''*abcdef*'' 5 [] = Some ([''_abc_'', ''_def_''], True)
   \<and> Walk 5 [] emphDoc = Some emphState
   \<and> tokenUnique sampleUuid (chunks emphState) 5 (baseTitle emphState)
   \<and> runVisits 5 [] ([([], emphDoc), ([emphDoc], emphParagraph),
                       ([emphParagraph, emphDoc], emphNode)]
                      @ [([emphNode, emphParagraph, emphDoc], leaf Text ''abcdef'')]) initState
       = Some emphState
   \<and> list_all (\<lambda>p. wrappers p = [emphWrapper]) (chunks emphState)
   \<and> (\<exists>gs. concat gs = chunks emphState \<and> length gs = 2
         \<and> (\<exists>title. ''_abc_'' = title @ concat (map chunkStr (gs ! 0)))
         \<and> (\<exists>title. ''_def_'' = title @ concat (map chunkStr (gs ! 1))))"
proof -
  let ?before = "[([], emphDoc), ([emphDoc], emphParagraph), ([emphParagraph, emphDoc], emphNode)]"
  let ?anc = "[emphNode, emphParagraph, emphDoc]"
  have h1: "5 < int (length ''*abcdef*'')" by simp
  have h2: "MarkdownSplit sampleUuid emphDoc ''*abcdef*'' 5 [] = Some ([''_abc_'', ''_def_''], True)"
    by code_simp
  have h3: "Walk 5 [] emphDoc = Some emphState" by code_simp
  have h4: "tokenUnique sampleUuid (chunks emphState) 5 (baseTitle emphState)" by code_simp
  have w: "walkOrder [] emphDoc = ?before @ (?anc, leaf Text ''abcdef'') # []" by code_simp
  have r: "runVisits 5 [] ?before initState = Some initState" by code_simp
  have full: "runVisits 5 [] (?before @ [(?anc, leaf Text ''abcdef'')]) initState = Some emphState"
    by code_simp
  note T = wrappers_balanced [OF h1 h2 h3 h4]
  from T w r obtain s' where
    s': "runVisits 5 [] (?before @ [(?anc, leaf Text ''abcdef'')]) initState = Some s'"
      "spec_visit initState ?anc (leaf Text ''abcdef'') s'"
    by blast
  have eq: "s' = emphState" using s'(1) full by simp
  have sa: "spec_ancestorWrappers ?anc @ spec_codeFence (leaf Text ''abcdef'') ''abcdef''
              @ spec_htmlStack (htmlWrappers initState) (leaf Text ''abcdef'') ''abcdef''
            = [emphWrapper]"
    by code_simp
  have nc: "\<not> spec_titleCaptured initState ?anc" by code_simp
  have lit: "literal (leaf Text ''abcdef'') = Some ''abcdef''" by (simp add: leaf_def)
  have ch: "chunks initState = []" by (simp add: initState_def)
  have wr: "list_all (\<lambda>p. wrappers p = [emphWrapper]) (chunks emphState)"
    using s'(2) unfolding eq spec_visit_def lit option.case if_not_P [OF nc] sa ch by simp
  from T obtain gs where
    gs: "concat gs = chunks emphState" "length gs = length [''_abc_'', ''_def_'']"
      "\<And>i. i < length [''_abc_'', ''_def_''] \<Longrightarrow>
         \<exists>title. [''_abc_'', ''_def_''] ! i = title @ concat (map chunkStr (gs ! i))"
    by blast
  have "\<exists>title. ''_abc_'' = title @ concat (map chunkStr (gs ! 0))" using gs(3) [of 0] by simp
  moreover have "\<exists>title. ''_def_'' = title @ concat (map chunkStr (gs ! 1))"
    using gs(3) [of 1] by simp
  moreover have "length gs = 2" using gs(2) by simp
  ultimately show ?thesis using h1 h2 h3 h4 full wr gs(1) by blast
qed

text \<open>
  C6, as claimed: whenever the maximum is at most the length of the separator, SimpleSplit
  and MarkdownSplit return no chunk, and MarkdownSplit reports no success. Both functions
  first return a text that fits the maximum unchanged, so the claim fails for the text
  \<open>"a"\<close> with maximum 1 and separator \<open>"--"\<close>.
\<close>

theorem config_failure_counterexample:
  "1 \<le> int (length ''--'') \<and> SimpleSplit ''a'' 1 ''--'' = Some [''a'']
   \<and> MarkdownSplit sampleUuid (container Document [container Paragraph [leaf Text ''a'']])
        ''a'' 1 ''--'' = Some ([''a''], True)"
  by (simp add: SimpleSplit_def MarkdownSplit_def)

text \<open>
  C6, amended: for a text longer than the maximum and a maximum at most the length of the
  separator, SimpleSplit returns no chunk and MarkdownSplit returns no chunk and no success.
\<close>

theorem config_failure:
  assumes "maxLen < int (length text)" "maxLen \<le> int (length sep)"
  shows "SimpleSplit text maxLen sep = Some []
         \<and> MarkdownSplit uuid rootNode text maxLen sep = Some ([], False)"
  using assms by (simp add: SimpleSplit_def MarkdownSplit_def)

theorem config_failure_witness:
  "2 < int (length ''abc'') \<and> 2 \<le> int (length ''--'')
   \<and> SimpleSplit ''abc'' 2 ''--'' = Some []
   \<and> MarkdownSplit sampleUuid (container Document [container Paragraph [leaf Text ''abc'']])
        ''abc'' 2 ''--'' = Some ([], False)"
  using config_failure [of 2 "''abc''" "''--''" sampleUuid
      "container Document [container Paragraph [leaf Text ''abc'']]"]
  by simp

text \<open>
  C5, as claimed: for every text with a list in its tree, MarkdownSplit reports no success
  and returns the chunks of SimpleSplit. A text that fits the maximum is returned unchanged
  with success, before any parsing.
\<close>

theorem list_fallback_counterexample:
  "containsList (container Document [container List [container Item [container Paragraph [leaf Text ''a'']]]])
   \<and> MarkdownSplit sampleUuid
        (container Document [container List [container Item [container Paragraph [leaf Text ''a'']]]])
        ''1. a'' 100 [] = Some ([''1. a''], True)"
  by (simp add: MarkdownSplit_def container_def)

text \<open>
  C5, amended: for every text longer than the maximum with a list somewhere in its tree,
  MarkdownSplit reports no success and returns the chunks of SimpleSplit on the same
  arguments.
\<close>

theorem list_fallback:
  assumes "containsList rootNode" "maxLen < int (length text)"
  shows "\<exists>cs. SimpleSplit text maxLen sep = Some cs
           \<and> MarkdownSplit uuid rootNode text maxLen sep = Some (cs, False)"
proof -
  obtain st where st: "Walk maxLen sep rootNode = Some st" using Walk_Some by blast
  obtain a n where n: "(a, n) \<in> set (walkOrder [] rootNode)" "nodeType n = List"
    using containsList_walkOrder [OF assms(1)] by blast
  have "\<not> canSplit st"
    using runVisits_List [OF canSplit_initState n] st unfolding Walk_def by blast
  from MarkdownSplit_fallback [OF assms(2) st this] show ?thesis .
qed

theorem list_fallback_witness:
  "containsList (container Document [container List [container Item [container Paragraph [leaf Text ''first item'']]]])
   \<and> 8 < int (length ''1. first item'')
   \<and> (\<exists>cs. SimpleSplit ''1. first item'' 8 [] = Some cs
         \<and> MarkdownSplit sampleUuid
              (container Document [container List [container Item [container Paragraph [leaf Text ''first item'']]]])
              ''1. first item'' 8 [] = Some (cs, False))"
  using list_fallback [of "container Document [container List [container Item [container Paragraph [leaf Text ''first item'']]]]"
      8 "''1. first item''" "[]" sampleUuid]
  by (simp add: container_def)



text \<open>
  C8, as claimed: a closing tag that does not close the tag on top of the stack leaves the
  stack as it is and its literal is emitted as plain, unwrapped content. The literal is a
  piece like any other text: it carries the wrappers of the tags that are open, here
  \<open><b>\<close>, and is written \<open><b></i></b>\<close>.
\<close>

theorem unmatched_closing_tag_counterexample:
  "map_option chunks (Walk 25 [] strayDoc)
     = Some [\<lparr>content = ''bold text here'', wrappers = [boldWrapper]\<rparr>,
             \<lparr>content = ''</i>'', wrappers = [boldWrapper]\<rparr>,
             \<lparr>content = ''more'', wrappers = [boldWrapper]\<rparr>]
   \<and> MarkdownSplit sampleUuid strayDoc ''<b>bold text here</i>more</b>'' 25 []
       = Some ([''<b>bold text here</b>'', ''<b></i></b><b>more</b>''], True)"
  by code_simp

text \<open>
  C8, amended: at a raw-HTML-span node whose literal is a closing tag that is not the close
  text on top of the stack (or the stack is empty), the visitor leaves the stack as it is.
  If the node gives the base title, the walk goes on with that title. Otherwise, with
  \<open>extraLen\<close> the lengths of the wrappers of the ancestors and of the open HTML tags plus
  the reserved title length plus the length of the separator: if \<open>extraLen\<close> is at least
  the maximum the walk is abandoned, and if it is less the walk goes on and the literal is
  cut into pieces whose contents concatenate to it, each with the wrappers of the ancestors
  followed by those of the open HTML tags.
\<close>

theorem unmatched_closing_tag:
  assumes "nodeType node = HTMLSpan" "literal node = Some contents"
    and "HasPrefix contents ''</''"
    and "htmlWrappers st = [] \<or> contents \<noteq> endStr (last (htmlWrappers st))"
  shows "\<exists>status st'. visitor maxLen sep anc node st = Some (status, st') \<and>
           htmlWrappers st' = htmlWrappers st \<and>
           (case parentLoop st contents anc [] of
              Inl t \<Rightarrow> status = GoToNext \<and> st' = t
            | Inr ws \<Rightarrow>
                extraLenOf sep anc node st
                  = Some (wrappersLen (ws @ htmlWrappers st) + titleLen st + int (length sep)) \<and>
                (if maxLen \<le> wrappersLen (ws @ htmlWrappers st) + titleLen st + int (length sep)
                 then status = Terminate \<and> \<not> canSplit st' \<and> chunks st' = chunks st
                 else status = GoToNext \<and> canSplit st' = canSplit st \<and>
                      (\<exists>cs. chunks st' = chunks st @ cs \<and> concat (map content cs) = contents
                            \<and> (\<forall>c\<in>set cs. wrappers c = ws @ htmlWrappers st))))"
proof (cases "parentLoop st contents anc []")
  case (Inl t)
  then have "visitor maxLen sep anc node st = Some (GoToNext, t)"
    using assms(1,2) by (simp add: visitor_form)
  moreover have "htmlWrappers t = htmlWrappers st" using parentLoop_Inl [OF Inl] by auto
  ultimately show ?thesis using Inl by simp
next
  case (Inr ws)
  have sw: "nodeSwitch node contents ws (htmlWrappers st) = (contents, ws, htmlWrappers st)"
    using assms(1,3,4) by (auto simp: nodeSwitch_def isHTMLOpeningTag_def)
  define extra where "extra = wrappersLen (ws @ htmlWrappers st) + titleLen st + int (length sep)"
  have ex: "extraLenOf sep anc node st = Some extra"
    using assms(1,2) Inr sw by (simp add: extraLenOf_def extra_def)
  show ?thesis
  proof (cases "maxLen \<le> extra")
    case True
    then have "visitor maxLen sep anc node st
                 = Some (Terminate, st\<lparr>htmlWrappers := htmlWrappers st, canSplit := False\<rparr>)"
      using assms(1,2) Inr sw by (simp add: visitor_form extra_def)
    then show ?thesis using Inr ex True by (simp add: extra_def)
  next
    case False
    then have n: "0 < nat (maxLen - extra)" by simp
    define cs where "cs = map (\<lambda>c. \<lparr>content = c, wrappers = ws @ htmlWrappers st\<rparr>)
                    (cutContents (nat (maxLen - extra)) contents)"
    have c: "concat (map content cs) = contents"
      using concat_cutContents [OF n, of contents] by (simp add: cs_def comp_def)
    have w: "\<forall>c\<in>set cs. wrappers c = ws @ htmlWrappers st" by (auto simp: cs_def)
    have "visitor maxLen sep anc node st
            = Some (GoToNext, st\<lparr>htmlWrappers := htmlWrappers st, chunks := chunks st @ cs\<rparr>)"
      using assms(1,2) Inr sw False by (simp add: visitor_form extra_def cs_def)
    then show ?thesis using Inr ex False c w by (auto simp: extra_def)
  qed
qed

theorem unmatched_closing_tag_witness:
  "HasPrefix ''</i>'' ''</'' \<and> ''</i>'' \<noteq> endStr (last [boldWrapper])
   \<and> visitor 25 [] [] (leaf HTMLSpan ''</i>'') (initState\<lparr>htmlWrappers := [boldWrapper]\<rparr>)
       = Some (GoToNext, initState\<lparr>htmlWrappers := [boldWrapper],
                 chunks := [\<lparr>content = ''</i>'', wrappers = [boldWrapper]\<rparr>]\<rparr>)
   \<and> htmlWrappers (initState\<lparr>htmlWrappers := [boldWrapper],
                 chunks := [\<lparr>content = ''</i>'', wrappers = [boldWrapper]\<rparr>]\<rparr>)
       = htmlWrappers (initState\<lparr>htmlWrappers := [boldWrapper]\<rparr>)
   \<and> (\<exists>cs. chunks (initState\<lparr>htmlWrappers := [boldWrapper],
                 chunks := [\<lparr>content = ''</i>'', wrappers = [boldWrapper]\<rparr>]\<rparr>)
              = chunks (initState\<lparr>htmlWrappers := [boldWrapper]\<rparr>) @ cs
           \<and> concat (map content cs) = ''</i>'')"
proof -
  let ?st = "initState\<lparr>htmlWrappers := [boldWrapper]\<rparr>"
  let ?st' = "initState\<lparr>htmlWrappers := [boldWrapper],
                 chunks := [\<lparr>content = ''</i>'', wrappers = [boldWrapper]\<rparr>]\<rparr>"
  have h1: "nodeType (leaf HTMLSpan ''</i>'') = HTMLSpan" by (simp add: leaf_def)
  have h2: "literal (leaf HTMLSpan ''</i>'') = Some ''</i>''" by (simp add: leaf_def)
  have h3: "HasPrefix ''</i>'' ''</''" by code_simp
  have h4: "htmlWrappers ?st = [] \<or> ''</i>'' \<noteq> endStr (last (htmlWrappers ?st))"
    by (simp add: boldWrapper_def)
  have v: "visitor 25 [] [] (leaf HTMLSpan ''</i>'') ?st = Some (GoToNext, ?st')"
    by code_simp
  have p: "parentLoop ?st ''</i>'' [] [] = Inr []" by simp
  from unmatched_closing_tag [OF h1 h2 h3 h4, of 25 "[]" "[]"]
  obtain status st' where
    A: "visitor 25 [] [] (leaf HTMLSpan ''</i>'') ?st = Some (status, st')"
    and B: "htmlWrappers st' = htmlWrappers ?st"
    and C: "if 25 \<le> wrappersLen ([] @ htmlWrappers ?st) + titleLen ?st + int (length ([]::string))
            then status = Terminate \<and> \<not> canSplit st' \<and> chunks st' = chunks ?st
            else status = GoToNext \<and> canSplit st' = canSplit ?st \<and>
                 (\<exists>cs. chunks st' = chunks ?st @ cs \<and> concat (map content cs) = ''</i>''
                       \<and> (\<forall>c\<in>set cs. wrappers c = [] @ htmlWrappers ?st))"
    unfolding p by auto
  have eq: "status = GoToNext" "st' = ?st'" using A v by simp_all
  have "\<exists>cs. chunks st' = chunks ?st @ cs \<and> concat (map content cs) = ''</i>''"
    using C eq(1) by (auto split: if_splits)
  then show ?thesis using h3 v B unfolding eq(2) by (simp add: boldWrapper_def)
qed

text \<open>
  C4. A code node cut into several chunks has its first line in the begin wrapper of every
  piece, and the rest of its content should be cut into the pieces without loss. The code
  strips the first line with \<open>strings.TrimLeft\<close>, which removes every leading byte that
  occurs in the first line: of the content \<open>good morning, gophers\<close> after the line \<open>go\<close>,
  the bytes \<open>goo\<close> are lost.
\<close>

theorem code_block_content_lost:
  "MarkdownSplit sampleUuid
     (container Document [container Paragraph [leaf Code ''go\<newline>good morning, gophers'']])
     ''```go\<newline>good morning, gophers```'' 20 []
   = Some ([''```go\<newline>d morning,\<newline>```'', ''```go\<newline> gophers\<newline>```''], True)"
  by code_simp


end
